theory Spec2Isabelle
  imports Complex_Main "HOL-Library.Multiset" "HOL-Library.Char_ord" "HOL-Library.List_Lexorder"
    "HOL-Library.Product_Lexorder"
begin

section \<open>VPN node stability scoring: a model of main.py\<close>

text \<open>
  The program reads a directory of CSV files (server name, ping, speed), keeps the
  measurements per server and per file, reduces every server to a stability score, an
  average speed and an average ping, and ranks the servers by a weighted score.

  Numbers. A Python \<^verbatim>\<open>float\<close> is a \<open>pyfloat\<close>: a finite value, one of the two infinities
  or NaN. An arithmetic operation on finite values computes the exact real result and
  rounds it with \<open>rnd\<close>, the rounding of the platform's doubles, which is a parameter of
  the model; \<open>rnd\<close> answers an infinity where the result overflows. What is assumed of
  \<open>rnd\<close> is the predicate \<open>rounding\<close> below, which rounding to nearest on IEEE binary64
  satisfies. The sign of zero is not modelled: both zeros compare equal, and a division
  by either raises in Python.
\<close>

subsection \<open>Errors\<close>

datatype error =
  ZeroDivisionError | StatisticsError | StopIteration | AttributeError | OverflowError

definition bind_res :: "error + 'a \<Rightarrow> ('a \<Rightarrow> error + 'b) \<Rightarrow> error + 'b" where
  "bind_res r f = (case r of Inl e \<Rightarrow> Inl e | Inr v \<Rightarrow> f v)"

subsection \<open>Python floats\<close>

datatype pyfloat = Fin real | PInf | NInf | NaN

fun is_finite :: "pyfloat \<Rightarrow> bool" where
  "is_finite (Fin a) = True"
| "is_finite _ = False"

text \<open>The real number a finite float stands for (0 for the others).\<close>

fun fin_val :: "pyfloat \<Rightarrow> real" where
  "fin_val (Fin a) = a"
| "fin_val _ = 0"

text \<open>The comparison \<^verbatim>\<open>a < b\<close>; every comparison with NaN is false.\<close>

fun py_lt :: "pyfloat \<Rightarrow> pyfloat \<Rightarrow> bool" where
  "py_lt (Fin a) (Fin b) = (a < b)"
| "py_lt NaN _ = False"
| "py_lt _ NaN = False"
| "py_lt NInf NInf = False"
| "py_lt NInf _ = True"
| "py_lt PInf _ = False"
| "py_lt (Fin a) PInf = True"
| "py_lt (Fin a) NInf = False"

text \<open>The comparison \<^verbatim>\<open>a <= b\<close>.\<close>

fun py_le :: "pyfloat \<Rightarrow> pyfloat \<Rightarrow> bool" where
  "py_le (Fin a) (Fin b) = (a \<le> b)"
| "py_le NaN _ = False"
| "py_le _ NaN = False"
| "py_le NInf _ = True"
| "py_le PInf PInf = True"
| "py_le PInf _ = False"
| "py_le (Fin a) PInf = True"
| "py_le (Fin a) NInf = False"

fun fneg :: "pyfloat \<Rightarrow> pyfloat" where
  "fneg (Fin a) = Fin (- a)"
| "fneg PInf = NInf"
| "fneg NInf = PInf"
| "fneg NaN = NaN"

text \<open>The sum \<^verbatim>\<open>a + b\<close>.\<close>

fun fadd :: "(real \<Rightarrow> pyfloat) \<Rightarrow> pyfloat \<Rightarrow> pyfloat \<Rightarrow> pyfloat" where
  "fadd rnd (Fin a) (Fin b) = rnd (a + b)"
| "fadd rnd NaN _ = NaN"
| "fadd rnd _ NaN = NaN"
| "fadd rnd PInf NInf = NaN"
| "fadd rnd NInf PInf = NaN"
| "fadd rnd PInf _ = PInf"
| "fadd rnd NInf _ = NInf"
| "fadd rnd (Fin a) PInf = PInf"
| "fadd rnd (Fin a) NInf = NInf"

definition fsub :: "(real \<Rightarrow> pyfloat) \<Rightarrow> pyfloat \<Rightarrow> pyfloat \<Rightarrow> pyfloat" where
  "fsub rnd a b = fadd rnd a (fneg b)"

text \<open>The product or quotient of an infinity with a finite number \<open>a\<close>.\<close>

definition inf_times :: "pyfloat \<Rightarrow> real \<Rightarrow> pyfloat" where
  "inf_times i a = (if a = 0 then NaN else if 0 < a then i else fneg i)"

text \<open>The product \<^verbatim>\<open>a * b\<close>.\<close>

fun fmul :: "(real \<Rightarrow> pyfloat) \<Rightarrow> pyfloat \<Rightarrow> pyfloat \<Rightarrow> pyfloat" where
  "fmul rnd (Fin a) (Fin b) = rnd (a * b)"
| "fmul rnd NaN _ = NaN"
| "fmul rnd _ NaN = NaN"
| "fmul rnd (Fin a) PInf = inf_times PInf a"
| "fmul rnd (Fin a) NInf = inf_times NInf a"
| "fmul rnd PInf (Fin b) = inf_times PInf b"
| "fmul rnd NInf (Fin b) = inf_times NInf b"
| "fmul rnd PInf PInf = PInf"
| "fmul rnd PInf NInf = NInf"
| "fmul rnd NInf PInf = NInf"
| "fmul rnd NInf NInf = PInf"

text \<open>True division \<^verbatim>\<open>a / b\<close>: a zero divisor raises \<^verbatim>\<open>ZeroDivisionError\<close>.\<close>

fun fdiv :: "(real \<Rightarrow> pyfloat) \<Rightarrow> pyfloat \<Rightarrow> pyfloat \<Rightarrow> error + pyfloat" where
  "fdiv rnd NaN (Fin b) = (if b = 0 then Inl ZeroDivisionError else Inr NaN)"
| "fdiv rnd (Fin a) (Fin b) = (if b = 0 then Inl ZeroDivisionError else Inr (rnd (a / b)))"
| "fdiv rnd PInf (Fin b) = (if b = 0 then Inl ZeroDivisionError else Inr (inf_times PInf b))"
| "fdiv rnd NInf (Fin b) = (if b = 0 then Inl ZeroDivisionError else Inr (inf_times NInf b))"
| "fdiv rnd _ NaN = Inr NaN"
| "fdiv rnd (Fin a) PInf = Inr (Fin 0)"
| "fdiv rnd (Fin a) NInf = Inr (Fin 0)"
| "fdiv rnd NaN _ = Inr NaN"
| "fdiv rnd PInf _ = Inr NaN"
| "fdiv rnd NInf _ = Inr NaN"

text \<open>
  The builtins \<^verbatim>\<open>min(a, b)\<close> and \<^verbatim>\<open>max(a, b)\<close> keep the first argument unless the
  second is strictly smaller (larger).
\<close>

definition py_min :: "pyfloat \<Rightarrow> pyfloat \<Rightarrow> pyfloat" where
  "py_min a b = (if py_lt b a then b else a)"

definition py_max :: "pyfloat \<Rightarrow> pyfloat \<Rightarrow> pyfloat" where
  "py_max a b = (if py_lt a b then b else a)"

subsection \<open>Rounding\<close>

text \<open>
  The largest double, and the bound from which rounding to nearest overflows.
\<close>

definition max_float :: real where
  "max_float = 2 ^ 1024 - 2 ^ 971"

definition overflow_threshold :: real where
  "overflow_threshold = 2 ^ 1024 - 2 ^ 970"

text \<open>
  What the model assumes of the rounding: it is monotone (and so never NaN); it leaves the
  integers up to \<open>2 ^ 53\<close> and the powers of two from \<open>2 ^ -1074\<close> to \<open>2 ^ 1023\<close> as they
  are; a finite result is at most the largest double and is left as it is by a second
  rounding; and below the overflow threshold the result is finite.
\<close>

definition rounding :: "(real \<Rightarrow> pyfloat) \<Rightarrow> bool" where
  "rounding rnd \<longleftrightarrow>
     (\<forall>x y. x \<le> y \<longrightarrow> py_le (rnd x) (rnd y))
   \<and> (\<forall>k::int. \<bar>k\<bar> \<le> 2 ^ 53 \<longrightarrow> rnd (of_int k) = Fin (of_int k))
   \<and> (\<forall>k::int. - 1074 \<le> k \<and> k \<le> 1023 \<longrightarrow>
         rnd (2 powi k) = Fin (2 powi k) \<and> rnd (- (2 powi k)) = Fin (- (2 powi k)))
   \<and> (\<forall>x y. rnd x = Fin y \<longrightarrow> \<bar>y\<bar> \<le> max_float \<and> rnd y = Fin y)
   \<and> (\<forall>x. \<bar>x\<bar> < overflow_threshold \<longrightarrow> is_finite (rnd x))"

text \<open>
  A rounding for concrete evaluation: exact wherever the result is at most the largest
  double. It agrees with the rounding of the doubles on every computation whose exact
  results are doubles.
\<close>

definition exact_rnd :: "real \<Rightarrow> pyfloat" where
  "exact_rnd x =
     (if overflow_threshold \<le> \<bar>x\<bar> then (if 0 < x then PInf else NInf)
      else Fin (max (- max_float) (min max_float x)))"

text \<open>A finite float within the range of the doubles.\<close>

fun in_range :: "pyfloat \<Rightarrow> bool" where
  "in_range (Fin a) = (\<bar>a\<bar> \<le> max_float)"
| "in_range _ = False"

subsection \<open>The statistics module\<close>

text \<open>
  As CPython 3.11 and 3.12 compute them on floats. \<^verbatim>\<open>statistics.mean\<close> raises
  \<^verbatim>\<open>StatisticsError\<close> on empty data; on finite data it converts the exact quotient of sum
  and count to a float, which is correctly rounded and raises \<^verbatim>\<open>OverflowError\<close> when
  the quotient is too large; with an infinity or NaN among the data it adds those up as
  floats and divides by the count. \<^verbatim>\<open>statistics.stdev\<close> raises \<^verbatim>\<open>StatisticsError\<close> on fewer
  than two points; on finite data it accumulates the sum \<open>sx\<close> and the sum of squares
  \<open>sxx\<close> exactly, takes the sum of squared deviations as \<open>(n * sxx - sx * sx) / n\<close>,
  divides by \<open>n - 1\<close> and returns the correctly rounded square root, or raises
  \<^verbatim>\<open>OverflowError\<close>; with an infinity or NaN among the data it raises
  \<^verbatim>\<open>AttributeError\<close> (the float total has no numerator).
\<close>

definition mean :: "(real \<Rightarrow> pyfloat) \<Rightarrow> pyfloat list \<Rightarrow> error + pyfloat" where
  "mean rnd data =
     (let n = length data in
      if n < 1 then Inl StatisticsError
      else if list_all is_finite data then
        (case rnd (sum_list (map fin_val data) / real n) of
           Fin m \<Rightarrow> Inr (Fin m)
         | _ \<Rightarrow> Inl OverflowError)
      else fdiv rnd (foldl (fadd rnd) (Fin 0) (filter (\<lambda>v. \<not> is_finite v) data))
                    (Fin (real n)))"

definition ss :: "real list \<Rightarrow> real" where
  "ss data =
     (let n = real (length data);
          sx = sum_list data;
          sxx = sum_list (map (\<lambda>x. x * x) data)
      in (n * sxx - sx * sx) / n)"

definition stdev :: "(real \<Rightarrow> pyfloat) \<Rightarrow> pyfloat list \<Rightarrow> error + pyfloat" where
  "stdev rnd data =
     (let n = length data in
      if n < 2 then Inl StatisticsError
      else if list_all is_finite data then
        (case rnd (sqrt (ss (map fin_val data) / (real n - 1))) of
           Fin s \<Rightarrow> Inr (Fin s)
         | _ \<Rightarrow> Inl OverflowError)
      else Inl AttributeError)"

subsection \<open>Samples\<close>

text \<open>
  A stored measurement is the tuple \<^verbatim>\<open>(ping_value, speed_value)\<close> of two floats or the
  marker \<^verbatim>\<open>('ERROR', 'ERROR')\<close>.
\<close>

datatype sample = Valid pyfloat pyfloat | ErrorMarker

text \<open>Line 38: the measurements different from \<^verbatim>\<open>('ERROR', 'ERROR')\<close>, as pairs.\<close>

fun valid_measurements :: "sample list \<Rightarrow> (pyfloat \<times> pyfloat) list" where
  "valid_measurements [] = []"
| "valid_measurements (Valid p s # ms) = (p, s) # valid_measurements ms"
| "valid_measurements (ErrorMarker # ms) = valid_measurements ms"

subsection \<open>calculate\_scores\<close>

text \<open>Line 45: \<^verbatim>\<open>1 / (statistics.stdev(pings) + 1)\<close>.\<close>

definition ping_stability :: "(real \<Rightarrow> pyfloat) \<Rightarrow> pyfloat list \<Rightarrow> error + pyfloat" where
  "ping_stability rnd pings =
     bind_res (stdev rnd pings) (\<lambda>sd. fdiv rnd (Fin 1) (fadd rnd sd (Fin 1)))"

text \<open>Line 46, inner quotient: \<^verbatim>\<open>statistics.stdev(speeds) / statistics.mean(speeds)\<close>.\<close>

definition coefficient_of_variation ::
  "(real \<Rightarrow> pyfloat) \<Rightarrow> pyfloat list \<Rightarrow> error + pyfloat" where
  "coefficient_of_variation rnd speeds =
     bind_res (stdev rnd speeds) (\<lambda>sd. bind_res (mean rnd speeds) (\<lambda>m. fdiv rnd sd m))"

text \<open>Line 46: \<^verbatim>\<open>1 / (statistics.stdev(speeds) / statistics.mean(speeds) + 1)\<close>.\<close>

definition speed_stability :: "(real \<Rightarrow> pyfloat) \<Rightarrow> pyfloat list \<Rightarrow> error + pyfloat" where
  "speed_stability rnd speeds =
     bind_res (coefficient_of_variation rnd speeds)
       (\<lambda>cv. fdiv rnd (Fin 1) (fadd rnd cv (Fin 1)))"

text \<open>Line 42: the two components of \<^verbatim>\<open>zip(*valid_measurements)\<close>.\<close>

definition pings_of :: "sample list \<Rightarrow> pyfloat list" where
  "pings_of measurements = map fst (valid_measurements measurements)"

definition speeds_of :: "sample list \<Rightarrow> pyfloat list" where
  "speeds_of measurements = map snd (valid_measurements measurements)"

text \<open>
  Lines 37 to 52. The result is the triple (stability score, average speed, average
  ping).
\<close>

definition calculate_scores ::
  "(real \<Rightarrow> pyfloat) \<Rightarrow> sample list \<Rightarrow> error + (pyfloat \<times> pyfloat \<times> pyfloat)" where
  "calculate_scores rnd measurements =
     (if length (valid_measurements measurements) < 2 then Inr (Fin 0, Fin 0, PInf)
      else
        let pings = pings_of measurements; speeds = speeds_of measurements in
        bind_res (ping_stability rnd pings) (\<lambda>ping_stab.
        bind_res (speed_stability rnd speeds) (\<lambda>speed_stab.
        bind_res (fdiv rnd (fadd rnd ping_stab speed_stab) (Fin 2)) (\<lambda>stability_score.
        bind_res (mean rnd speeds) (\<lambda>avg_speed.
        bind_res (mean rnd pings) (\<lambda>avg_ping.
          Inr (stability_score, avg_speed, avg_ping)))))))"

subsection \<open>rank\_nodes\<close>

text \<open>
  A dictionary keeps its keys in insertion order, and \<^verbatim>\<open>rank_nodes\<close> walks
  \<^verbatim>\<open>data.items()\<close> in that order: the mappings are association lists in insertion order.
\<close>

type_synonym server_dataset = "(string \<times> sample list) list"

type_synonym corpus = "(string \<times> server_dataset) list"

text \<open>
  A ranking entry is the tuple
  \<^verbatim>\<open>(server_name, weighted_score, stability_score, avg_speed, avg_ping)\<close>.
\<close>

type_synonym ranking = "string \<times> pyfloat \<times> pyfloat \<times> pyfloat \<times> pyfloat"

definition server_of :: "ranking \<Rightarrow> string" where
  "server_of r = fst r"

text \<open>The sort key \<^verbatim>\<open>lambda x: x[1]\<close>.\<close>

definition weighted_of :: "ranking \<Rightarrow> pyfloat" where
  "weighted_of r = fst (snd r)"

text \<open>Line 57: the measurements of all files of one server, file after file.\<close>

definition all_measurements :: "server_dataset \<Rightarrow> sample list" where
  "all_measurements file_measurements = concat (map snd file_measurements)"

text \<open>Lines 61 to 66: the weighted score of a result of \<^verbatim>\<open>calculate_scores\<close>.\<close>

definition weighted_score ::
  "(real \<Rightarrow> pyfloat) \<Rightarrow> pyfloat \<Rightarrow> pyfloat \<Rightarrow> pyfloat \<Rightarrow> error + pyfloat" where
  "weighted_score rnd stability_score avg_speed avg_ping =
     bind_res (fdiv rnd stability_score (Fin 1)) (\<lambda>normalized_stability.
     bind_res (fdiv rnd avg_speed (Fin 100)) (\<lambda>q.
     let normalized_speed = py_min q (Fin 1) in
     bind_res (fdiv rnd avg_ping (Fin 1000)) (\<lambda>q'.
     let normalized_ping = py_max (fsub rnd (Fin 1) q') (Fin 0) in
     fdiv rnd
       (fadd rnd (fadd rnd (fmul rnd (Fin 4) normalized_stability)
                           (fmul rnd (Fin 3) normalized_speed))
                 (fmul rnd (Fin 1) normalized_ping))
       (Fin 8))))"

text \<open>Lines 57 to 68: the body of the loop, for one item of \<^verbatim>\<open>data.items()\<close>.\<close>

definition score_server ::
  "(real \<Rightarrow> pyfloat) \<Rightarrow> string \<times> server_dataset \<Rightarrow> error + ranking" where
  "score_server rnd item =
     (case item of (server_name, file_measurements) \<Rightarrow>
        bind_res (calculate_scores rnd (all_measurements file_measurements))
          (\<lambda>(stability_score, avg_speed, avg_ping).
             bind_res (weighted_score rnd stability_score avg_speed avg_ping)
               (\<lambda>w. Inr (server_name, w, stability_score, avg_speed, avg_ping))))"

text \<open>Lines 55 to 68: the loop; an exception of one server ends it.\<close>

fun build_rankings :: "(real \<Rightarrow> pyfloat) \<Rightarrow> corpus \<Rightarrow> error + ranking list" where
  "build_rankings rnd [] = Inr []"
| "build_rankings rnd (item # rest) =
     bind_res (score_server rnd item) (\<lambda>r.
     bind_res (build_rankings rnd rest) (\<lambda>rs. Inr (r # rs)))"

text \<open>
  \<^verbatim>\<open>sorted(..., key=..., reverse=True)\<close>: the sort compares keys with \<^verbatim>\<open><\<close> only and is
  stable; with \<^verbatim>\<open>reverse=True\<close> the list is reversed, sorted ascending and stably, and
  reversed again. The stable ascending sort is written as an insertion sort.
\<close>

fun insort_lt :: "('a \<Rightarrow> pyfloat) \<Rightarrow> 'a \<Rightarrow> 'a list \<Rightarrow> 'a list" where
  "insort_lt key x [] = [x]"
| "insort_lt key x (y # ys) =
     (if py_lt (key y) (key x) then y # insort_lt key x ys else x # y # ys)"

definition sort_lt :: "('a \<Rightarrow> pyfloat) \<Rightarrow> 'a list \<Rightarrow> 'a list" where
  "sort_lt key xs = foldr (insort_lt key) xs []"

definition sorted_reverse :: "('a \<Rightarrow> pyfloat) \<Rightarrow> 'a list \<Rightarrow> 'a list" where
  "sorted_reverse key xs = rev (sort_lt key (rev xs))"

definition rank_nodes :: "(real \<Rightarrow> pyfloat) \<Rightarrow> corpus \<Rightarrow> error + ranking list" where
  "rank_nodes rnd data = bind_res (build_rankings rnd data) (\<lambda>rankings.
     Inr (sorted_reverse weighted_of rankings))"

subsection \<open>Ingestion\<close>

text \<open>\<^verbatim>\<open>str.upper\<close> on the letters that matter for the comparison with \<^verbatim>\<open>'ERROR'\<close>.\<close>

definition upper_char :: "char \<Rightarrow> char" where
  "upper_char c =
     (if CHR ''a'' \<le> c \<and> c \<le> CHR ''z'' then char_of (of_char c - (32::nat)) else c)"

definition upper :: "string \<Rightarrow> string" where
  "upper s = map upper_char s"

text \<open>
  Lines 7 to 13. The builtin \<^verbatim>\<open>float\<close> is the parameter \<open>flt\<close>: \<open>None\<close> stands for its
  \<^verbatim>\<open>ValueError\<close>.
\<close>

definition parse_value :: "(string \<Rightarrow> pyfloat option) \<Rightarrow> string \<Rightarrow> pyfloat option" where
  "parse_value flt v =
     (if v = [] \<or> upper v = ''ERROR'' then None else flt v)"

text \<open>
  \<^verbatim>\<open>data[server_name][filename].append(x)\<close> on the nested \<^verbatim>\<open>defaultdict\<close>: a missing key
  is created at the end with an empty value.
\<close>

fun append_at :: "string \<Rightarrow> sample \<Rightarrow> server_dataset \<Rightarrow> server_dataset" where
  "append_at filename x [] = [(filename, [x])]"
| "append_at filename x ((k, xs) # rest) =
     (if k = filename then (k, xs @ [x]) # rest else (k, xs) # append_at filename x rest)"

fun record_sample :: "string \<Rightarrow> string \<Rightarrow> sample \<Rightarrow> corpus \<Rightarrow> corpus" where
  "record_sample server_name filename x [] = [(server_name, append_at filename x [])]"
| "record_sample server_name filename x ((k, ds) # rest) =
     (if k = server_name then (k, append_at filename x ds) # rest
      else (k, ds) # record_sample server_name filename x rest)"

text \<open>Lines 27 to 34: the body of the loop over the rows of one file.\<close>

definition ingest_row ::
  "(string \<Rightarrow> pyfloat option) \<Rightarrow> string \<Rightarrow> string list \<Rightarrow> corpus \<Rightarrow> corpus" where
  "ingest_row flt filename row data =
     (case row of
        [server_name, ping, speed] \<Rightarrow>
          (let ping_value = parse_value flt ping;
               speed_value = parse_value flt speed
           in if ping_value \<noteq> None \<and> speed_value \<noteq> None
              then record_sample server_name filename
                     (Valid (the ping_value) (the speed_value)) data
              else if ping_value = None \<and> speed_value = None
              then record_sample server_name filename ErrorMarker data
              else data)
      | _ \<Rightarrow> data)"

text \<open>
  Lines 23 to 34: one file, given as the rows the CSV reader yields. \<^verbatim>\<open>next(reader)\<close>
  on a file without rows raises \<^verbatim>\<open>StopIteration\<close>.
\<close>

definition read_file ::
  "(string \<Rightarrow> pyfloat option) \<Rightarrow> string \<Rightarrow> string list list \<Rightarrow> corpus \<Rightarrow> error + corpus" where
  "read_file flt filename rows data =
     (case rows of
        [] \<Rightarrow> Inl StopIteration
      | header # body \<Rightarrow> Inr (fold (ingest_row flt filename) body data))"

definition endswith :: "string \<Rightarrow> string \<Rightarrow> bool" where
  "endswith s suffix = (length suffix \<le> length s \<and> drop (length s - length suffix) s = suffix)"

text \<open>Lines 18 to 34: the loop over the sorted directory listing.\<close>

fun read_loop ::
  "(string \<Rightarrow> pyfloat option) \<Rightarrow> (string \<times> string list list) list \<Rightarrow> corpus \<times> string list \<Rightarrow>
     error + (corpus \<times> string list)" where
  "read_loop flt [] acc = Inr acc"
| "read_loop flt ((filename, rows) # rest) (data, file_names) =
     (if endswith filename ''.csv''
      then bind_res (read_file flt filename rows data) (\<lambda>data'.
             read_loop flt rest (data', file_names @ [filename]))
      else read_loop flt rest (data, file_names))"

text \<open>
  Lines 15 to 35. The directory is the list of its files, each a name with the rows of its
  contents; \<^verbatim>\<open>sorted(os.listdir(dir_path))\<close> orders the names.
\<close>

definition read_csv_files ::
  "(string \<Rightarrow> pyfloat option) \<Rightarrow> (string \<times> string list list) list \<Rightarrow>
     error + (corpus \<times> string list)" where
  "read_csv_files flt dir = read_loop flt (sort_key fst dir) ([], [])"

subsection \<open>Float literals\<close>

text \<open>
  The builtin \<^verbatim>\<open>float\<close> on ASCII strings: surrounding white space, an optional sign, then
  \<^verbatim>\<open>inf\<close>, \<^verbatim>\<open>infinity\<close> or \<^verbatim>\<open>nan\<close> in any case, or decimal digits with an optional
  fraction and an optional exponent, where single underscores may separate digits. The
  decimal value is rounded. Any other string is a \<^verbatim>\<open>ValueError\<close>, here \<open>None\<close>.
\<close>

definition is_digit :: "char \<Rightarrow> bool" where
  "is_digit c = (CHR ''0'' \<le> c \<and> c \<le> CHR ''9'')"

definition is_space :: "char \<Rightarrow> bool" where
  "is_space c = (c = CHR '' '' \<or> (9::nat) \<le> of_char c \<and> of_char c \<le> (13::nat)
                   \<or> (28::nat) \<le> of_char c \<and> of_char c \<le> (31::nat))"

definition digits_val :: "string \<Rightarrow> nat" where
  "digits_val ds = foldl (\<lambda>n c. 10 * n + (of_char c - 48)) 0 ds"

definition strip :: "string \<Rightarrow> string" where
  "strip s = rev (dropWhile is_space (rev (dropWhile is_space s)))"

text \<open>
  The string after one underscore that stands between two digits, when the string starts
  with such an underscore.
\<close>

definition skip_underscore :: "string \<Rightarrow> string" where
  "skip_underscore cs =
     (case cs of
        u # d # rest \<Rightarrow> if u = CHR ''_'' \<and> is_digit d then d # rest else cs
      | _ \<Rightarrow> cs)"

text \<open>The digits of the longest digit part at the start of a string, and what follows it.\<close>

function digit_part :: "string \<Rightarrow> string \<times> string" where
  "digit_part [] = ([], [])"
| "digit_part (c # cs) =
     (if is_digit c
      then (case digit_part (skip_underscore cs) of (ds, r) \<Rightarrow> (c # ds, r))
      else ([], c # cs))"
  by pat_completeness auto
termination
  by (relation "measure length") (auto simp: skip_underscore_def split: list.splits)

definition exponent :: "string \<Rightarrow> int option" where
  "exponent s =
     (case s of
        [] \<Rightarrow> Some 0
      | c # t \<Rightarrow>
          if c = CHR ''e'' \<or> c = CHR ''E'' then
            (case t of
               [] \<Rightarrow> None
             | d # u \<Rightarrow>
                 (case digit_part (if d = CHR ''+'' \<or> d = CHR ''-'' then u else t) of
                    (ds, r) \<Rightarrow>
                      if ds \<noteq> [] \<and> r = []
                      then Some (if d = CHR ''-'' then - int (digits_val ds)
                                 else int (digits_val ds))
                      else None))
          else None)"

definition unsigned_literal :: "(real \<Rightarrow> pyfloat) \<Rightarrow> string \<Rightarrow> pyfloat option" where
  "unsigned_literal rnd s =
     (if upper s = ''INF'' \<or> upper s = ''INFINITY'' then Some PInf
      else if upper s = ''NAN'' then Some NaN
      else
        (case digit_part s of (ip, r) \<Rightarrow>
           (case (case r of
                    [] \<Rightarrow> ([], [])
                  | c # t \<Rightarrow> if c = CHR ''.'' then digit_part t else ([], r)) of
              (fp, r') \<Rightarrow>
                if ip = [] \<and> fp = [] then None
                else (case exponent r' of
                        None \<Rightarrow> None
                      | Some e \<Rightarrow>
                          Some (rnd ((real (digits_val ip)
                                        + real (digits_val fp) / 10 ^ length fp)
                                     * 10 powi e))))))"

definition float_literal :: "(real \<Rightarrow> pyfloat) \<Rightarrow> string \<Rightarrow> pyfloat option" where
  "float_literal rnd s =
     (case strip s of
        [] \<Rightarrow> None
      | c # t \<Rightarrow>
          if c = CHR ''-'' then map_option fneg (unsigned_literal rnd t)
          else if c = CHR ''+'' then unsigned_literal rnd t
          else unsigned_literal rnd (c # t))"

subsection \<open>The formulas of the specification\<close>

text \<open>
  The specification's words: the arithmetic mean and the Bessel-corrected sample standard
  deviation over the reals; the two stability terms, their average and the weighted
  score, computed in floats from the rounded mean and standard deviation. A quotient by
  zero has no value (NaN).
\<close>

definition spec_mean :: "real list \<Rightarrow> real" where
  "spec_mean xs = (\<Sum>x\<leftarrow>xs. x) / real (length xs)"

definition spec_stdev :: "real list \<Rightarrow> real" where
  "spec_stdev xs = sqrt ((\<Sum>x\<leftarrow>xs. (x - spec_mean xs)\<^sup>2) / (real (length xs) - 1))"

definition fquot :: "(real \<Rightarrow> pyfloat) \<Rightarrow> pyfloat \<Rightarrow> pyfloat \<Rightarrow> pyfloat" where
  "fquot rnd a b = (case fdiv rnd a b of Inl e \<Rightarrow> NaN | Inr q \<Rightarrow> q)"

definition spec_ping_stability :: "(real \<Rightarrow> pyfloat) \<Rightarrow> real list \<Rightarrow> pyfloat" where
  "spec_ping_stability rnd pings =
     fquot rnd (Fin 1) (fadd rnd (rnd (spec_stdev pings)) (Fin 1))"

definition spec_speed_stability :: "(real \<Rightarrow> pyfloat) \<Rightarrow> real list \<Rightarrow> pyfloat" where
  "spec_speed_stability rnd speeds =
     fquot rnd (Fin 1)
       (fadd rnd (fquot rnd (rnd (spec_stdev speeds)) (rnd (spec_mean speeds))) (Fin 1))"

definition spec_stability :: "(real \<Rightarrow> pyfloat) \<Rightarrow> real list \<Rightarrow> real list \<Rightarrow> pyfloat" where
  "spec_stability rnd pings speeds =
     fquot rnd (fadd rnd (spec_ping_stability rnd pings) (spec_speed_stability rnd speeds))
       (Fin 2)"

definition spec_weighted :: "(real \<Rightarrow> pyfloat) \<Rightarrow> pyfloat \<Rightarrow> pyfloat \<Rightarrow> pyfloat \<Rightarrow> pyfloat" where
  "spec_weighted rnd stability avg_speed avg_ping =
     fquot rnd
       (fadd rnd
          (fadd rnd (fmul rnd (Fin 4) stability)
                    (fmul rnd (Fin 3) (py_min (fquot rnd avg_speed (Fin 100)) (Fin 1))))
          (fmul rnd (Fin 1) (py_max (fsub rnd (Fin 1) (fquot rnd avg_ping (Fin 1000))) (Fin 0))))
       (Fin 8)"

subsection \<open>Auxiliary notions\<close>

text \<open>The values of a list of finite floats.\<close>

definition vals :: "pyfloat list \<Rightarrow> real list" where
  "vals xs = map fin_val xs"

text \<open>
  An embedding of the floats other than NaN into a linear order, for the proofs about the
  sort.
\<close>

fun ord_val :: "pyfloat \<Rightarrow> int \<times> real" where
  "ord_val NInf = (- 1, 0)"
| "ord_val (Fin a) = (0, a)"
| "ord_val PInf = (1, 0)"
| "ord_val NaN = (2, 0)"

text \<open>
  The list stored at \<^verbatim>\<open>data[server_name][filename]\<close> (empty when a key is missing), and all
  samples of a corpus.
\<close>

definition samples_at :: "corpus \<Rightarrow> string \<Rightarrow> string \<Rightarrow> sample list" where
  "samples_at data server_name filename =
     (case map_of data server_name of
        None \<Rightarrow> []
      | Some ds \<Rightarrow> (case map_of ds filename of None \<Rightarrow> [] | Some xs \<Rightarrow> xs))"


text \<open>
  The specification's explicit-error field: the empty string or, whatever the case of its
  letters, \<^verbatim>\<open>ERROR\<close>.
\<close>

definition explicit_error :: "string \<Rightarrow> bool" where
  "explicit_error v = (v = [] \<or> upper v = ''ERROR'')"

section \<open>Properties\<close>

subsection \<open>Results and errors\<close>

lemma bind_res_Inr [simp]: "bind_res (Inr v) f = f v"
  by (simp add: bind_res_def)

lemma bind_res_Inl [simp]: "bind_res (Inl e) f = Inl e"
  by (simp add: bind_res_def)

lemma bind_res_eq_Inr:
  "bind_res r f = Inr y \<longleftrightarrow> (\<exists>v. r = Inr v \<and> f v = Inr y)"
  by (cases r) simp_all

subsection \<open>The order of the floats\<close>

lemma py_le_refl: "v \<noteq> NaN \<Longrightarrow> py_le v v"
  by (cases v) simp_all

lemma py_le_NaN [simp]: "\<not> py_le v NaN"
  by (cases v) simp_all

lemma py_lt_NaN [simp]: "\<not> py_lt v NaN"
  by (cases v) simp_all

lemma py_le_between:
  assumes "py_le (Fin a) v" "py_le v (Fin b)"
  shows "\<exists>y. v = Fin y \<and> a \<le> y \<and> y \<le> b"
  using assms by (cases v) simp_all

lemma py_le_Fin_lower:
  assumes "py_le (Fin a) v"
  shows "v = PInf \<or> (\<exists>y. v = Fin y \<and> a \<le> y)"
  using assms by (cases v) simp_all

lemma py_le_Fin_upper:
  assumes "py_le v (Fin b)"
  shows "v = NInf \<or> (\<exists>y. v = Fin y \<and> y \<le> b)"
  using assms by (cases v) simp_all

lemma py_lt_ord_val: "a \<noteq> NaN \<Longrightarrow> b \<noteq> NaN \<Longrightarrow> py_lt a b \<longleftrightarrow> ord_val a < ord_val b"
  by (cases a; cases b) simp_all

lemma py_le_ord_val: "a \<noteq> NaN \<Longrightarrow> b \<noteq> NaN \<Longrightarrow> py_le a b \<longleftrightarrow> ord_val a \<le> ord_val b"
  by (cases a; cases b) simp_all

lemma ord_val_eq: "ord_val a = ord_val b \<longleftrightarrow> a = b"
  by (cases a; cases b) simp_all

subsection \<open>Rounding\<close>

lemma rnd_mono: "rounding rnd \<Longrightarrow> x \<le> y \<Longrightarrow> py_le (rnd x) (rnd y)"
  by (simp add: rounding_def)

lemma rnd_int: "rounding rnd \<Longrightarrow> \<bar>k\<bar> \<le> 2 ^ 53 \<Longrightarrow> rnd (of_int k) = Fin (of_int k)"
  by (simp add: rounding_def)

lemma rnd_pow2:
  "rounding rnd \<Longrightarrow> - 1074 \<le> k \<Longrightarrow> k \<le> 1023 \<Longrightarrow> rnd (2 powi k) = Fin (2 powi k)"
  by (simp add: rounding_def)

lemma rnd_neg_pow2:
  "rounding rnd \<Longrightarrow> - 1074 \<le> k \<Longrightarrow> k \<le> 1023 \<Longrightarrow> rnd (- (2 powi k)) = Fin (- (2 powi k))"
  by (simp add: rounding_def)

lemma rnd_max: "rounding rnd \<Longrightarrow> rnd x = Fin y \<Longrightarrow> \<bar>y\<bar> \<le> max_float"
  unfolding rounding_def by blast

lemma rnd_idem: "rounding rnd \<Longrightarrow> rnd x = Fin y \<Longrightarrow> rnd y = Fin y"
  unfolding rounding_def by blast

lemma rnd_finite: "rounding rnd \<Longrightarrow> \<bar>x\<bar> < overflow_threshold \<Longrightarrow> is_finite (rnd x)"
  by (simp add: rounding_def)

lemma rnd_not_NaN: "rounding rnd \<Longrightarrow> rnd x \<noteq> NaN"
  using rnd_mono [of rnd x x] by auto

lemma rnd_0 [simp]: "rounding rnd \<Longrightarrow> rnd 0 = Fin 0"
  using rnd_int [of rnd 0] by simp

lemma rnd_1 [simp]: "rounding rnd \<Longrightarrow> rnd 1 = Fin 1"
  using rnd_int [of rnd 1] by simp

lemma rnd_between:
  assumes "rounding rnd" "\<bar>lo\<bar> \<le> 2 ^ 53" "\<bar>hi\<bar> \<le> 2 ^ 53"
      and "of_int lo \<le> x" "x \<le> of_int hi"
  shows "\<exists>y. rnd x = Fin y \<and> of_int lo \<le> y \<and> y \<le> of_int hi"
proof -
  have "py_le (Fin (of_int lo)) (rnd x)"
    using rnd_mono [OF assms(1,4)] rnd_int [OF assms(1,2)] by simp
  moreover have "py_le (rnd x) (Fin (of_int hi))"
    using rnd_mono [OF assms(1,5)] rnd_int [OF assms(1,3)] by simp
  ultimately show ?thesis by (rule py_le_between)
qed

lemma rnd_nonneg:
  assumes "rounding rnd" "0 \<le> x"
  shows "rnd x = PInf \<or> (\<exists>y. rnd x = Fin y \<and> 0 \<le> y)"
proof -
  have "py_le (Fin 0) (rnd x)" using rnd_mono [OF assms] assms(1) by simp
  then show ?thesis by (rule py_le_Fin_lower)
qed

lemma rnd_le_int:
  assumes "rounding rnd" "\<bar>hi\<bar> \<le> 2 ^ 53" "x \<le> of_int hi"
  shows "rnd x = NInf \<or> (\<exists>y. rnd x = Fin y \<and> y \<le> of_int hi)"
proof -
  have "py_le (rnd x) (Fin (of_int hi))"
    using rnd_mono [OF assms(1,3)] rnd_int [OF assms(1,2)] by simp
  then show ?thesis by (rule py_le_Fin_upper)
qed

lemma max_float_less_threshold: "max_float < overflow_threshold"
  by (simp add: max_float_def overflow_threshold_def)

lemma max_float_pos: "0 < max_float"
  by (simp add: max_float_def)

lemma pow2_le_max_float:
  assumes "k \<le> 1023"
  shows "2 powi k \<le> max_float"
proof -
  have "(2::real) powi k \<le> 2 powi 1023" using assms by (intro power_int_increasing) simp_all
  also have "\<dots> \<le> max_float" by (simp add: max_float_def)
  finally show ?thesis .
qed

lemma exact_rnd_in_range: "\<bar>x\<bar> \<le> max_float \<Longrightarrow> exact_rnd x = Fin x"
  using max_float_less_threshold by (auto simp: exact_rnd_def)

lemma rounding_exact_rnd: "rounding exact_rnd"
  unfolding rounding_def
proof (intro conjI allI impI)
  fix x y :: real
  assume "x \<le> y"
  then show "py_le (exact_rnd x) (exact_rnd y)"
    using max_float_less_threshold max_float_pos by (auto simp: exact_rnd_def)
next
  fix k :: int
  assume "\<bar>k\<bar> \<le> 2 ^ 53"
  then have "\<bar>real_of_int k\<bar> \<le> 2 ^ 53"
    by (metis of_int_abs of_int_le_iff of_int_numeral of_int_power)
  also have "\<dots> \<le> max_float" by (simp add: max_float_def)
  finally show "exact_rnd (of_int k) = Fin (of_int k)" by (rule exact_rnd_in_range)
next
  fix k :: int
  assume k: "- 1074 \<le> k \<and> k \<le> 1023"
  have "\<bar>(2::real) powi k\<bar> \<le> max_float" using pow2_le_max_float k by simp
  then show "exact_rnd (2 powi k) = Fin (2 powi k)" by (rule exact_rnd_in_range)
  have "\<bar>- ((2::real) powi k)\<bar> \<le> max_float" using pow2_le_max_float k by simp
  then show "exact_rnd (- (2 powi k)) = Fin (- (2 powi k))" by (rule exact_rnd_in_range)
next
  fix x y :: real
  assume a: "exact_rnd x = Fin y"
  then show "\<bar>y\<bar> \<le> max_float"
    using max_float_pos by (auto simp: exact_rnd_def split: if_splits)
  then show "exact_rnd y = Fin y" by (rule exact_rnd_in_range)
next
  fix x :: real
  assume "\<bar>x\<bar> < overflow_threshold"
  then show "is_finite (exact_rnd x)" by (simp add: exact_rnd_def)
qed

text \<open>The operations on floats that are not NaN.\<close>

lemma fadd_Fin_not_NaN:
  "rounding rnd \<Longrightarrow> b \<noteq> NaN \<Longrightarrow> fadd rnd (Fin a) b \<noteq> NaN"
  by (cases b) (simp_all add: rnd_not_NaN)

lemma fadd_not_NaN_Fin:
  "rounding rnd \<Longrightarrow> a \<noteq> NaN \<Longrightarrow> fadd rnd a (Fin b) \<noteq> NaN"
  by (cases a) (simp_all add: rnd_not_NaN)

lemma fdiv_const:
  assumes "c \<noteq> 0"
  shows "\<exists>q. fdiv rnd a (Fin c) = Inr q"
  using assms by (cases a) simp_all

lemma fdiv_const_not_NaN:
  assumes "rounding rnd" "c \<noteq> 0" "a \<noteq> NaN"
  shows "\<exists>q. fdiv rnd a (Fin c) = Inr q \<and> q \<noteq> NaN"
  using assms by (cases a) (simp_all add: rnd_not_NaN inf_times_def)

lemma fdiv_Fin_not_NaN:
  assumes "rounding rnd" "b \<noteq> NaN" "b \<noteq> Fin 0"
  shows "\<exists>q. fdiv rnd (Fin a) b = Inr q \<and> q \<noteq> NaN"
  using assms by (cases b) (simp_all add: rnd_not_NaN)

lemma fmul_Fin_not_NaN:
  assumes "rounding rnd" "c \<noteq> 0" "a \<noteq> NaN"
  shows "fmul rnd (Fin c) a \<noteq> NaN"
  using assms by (cases a) (simp_all add: rnd_not_NaN inf_times_def)

lemma fquot_eq: "fdiv rnd a b = Inr q \<Longrightarrow> fquot rnd a b = q"
  by (simp add: fquot_def)

subsection \<open>The statistics module against the textbook formulas\<close>

lemma sum_sq_dev:
  "(\<Sum>x\<leftarrow>xs. (x - c)\<^sup>2) = (\<Sum>x\<leftarrow>xs. x * x) - 2 * c * sum_list xs + real (length xs) * c\<^sup>2"
  by (induction xs) (simp_all add: algebra_simps power2_eq_square)

lemma ss_eq_dev:
  assumes "xs \<noteq> []"
  shows "ss xs = (\<Sum>x\<leftarrow>xs. (x - spec_mean xs)\<^sup>2)"
proof -
  have n: "real (length xs) \<noteq> 0" using assms by simp
  show ?thesis
    unfolding sum_sq_dev ss_def spec_mean_def Let_def using n
    by (simp add: field_simps power2_eq_square)
qed

lemma sum_sq_nonneg: "0 \<le> (\<Sum>x\<leftarrow>xs. (x - c)\<^sup>2)" for c :: real
  by (induction xs) simp_all

lemma spec_stdev_nonneg: "2 \<le> length xs \<Longrightarrow> 0 \<le> spec_stdev xs"
  unfolding spec_stdev_def by (simp add: sum_sq_nonneg)

lemma spec_mean_const:
  assumes "\<forall>x\<in>set xs. x = c" "xs \<noteq> []"
  shows "spec_mean xs = c"
proof -
  have "sum_list xs = real (length xs) * c" using assms(1)
    by (induction xs) (simp_all add: algebra_simps)
  then show ?thesis using assms(2) by (simp add: spec_mean_def)
qed

lemma spec_stdev_const:
  assumes "\<forall>x\<in>set xs. x = c" "xs \<noteq> []"
  shows "spec_stdev xs = 0"
proof -
  have "(\<Sum>x\<leftarrow>xs. (x - c)\<^sup>2) = 0" using assms(1) by (induction xs) simp_all
  then show ?thesis using spec_mean_const [OF assms] by (simp add: spec_stdev_def)
qed

lemma spec_mean_nonneg: "\<forall>x\<in>set xs. 0 \<le> x \<Longrightarrow> 0 \<le> spec_mean xs"
  by (simp add: spec_mean_def sum_list_nonneg)

lemma sum_list_abs_bound:
  "\<forall>x\<in>set xs. \<bar>x\<bar> \<le> B \<Longrightarrow> \<bar>sum_list xs\<bar> \<le> real (length xs) * B" for B :: real
proof (induction xs)
  case Nil
  show ?case by simp
next
  case (Cons x xs)
  then have "\<bar>x\<bar> \<le> B" "\<bar>sum_list xs\<bar> \<le> real (length xs) * B" by simp_all
  then show ?case by (simp add: algebra_simps)
qed

lemma spec_mean_bound:
  assumes "\<forall>x\<in>set xs. \<bar>x\<bar> \<le> B" "xs \<noteq> []"
  shows "\<bar>spec_mean xs\<bar> \<le> B"
proof -
  have n: "0 < real (length xs)" using assms(2) by simp
  have "\<bar>sum_list xs\<bar> \<le> real (length xs) * B" using assms(1) by (rule sum_list_abs_bound)
  then have "\<bar>sum_list xs\<bar> / real (length xs) \<le> B" using n by (simp add: field_simps)
  then show ?thesis by (simp add: spec_mean_def)
qed

lemma length_vals [simp]: "length (vals xs) = length xs"
  by (simp add: vals_def)

lemma set_vals_in_range:
  "list_all in_range xs \<Longrightarrow> \<forall>x\<in>set (vals xs). \<bar>x\<bar> \<le> max_float"
proof (induction xs)
  case Nil
  show ?case by (simp add: vals_def)
next
  case (Cons v xs)
  then show ?case by (cases v) (simp_all add: vals_def)
qed

lemma in_range_finite: "list_all in_range xs \<Longrightarrow> list_all is_finite xs"
proof (induction xs)
  case Nil
  show ?case by simp
next
  case (Cons v xs)
  then show ?case by (cases v) simp_all
qed

lemma mean_in_range_finite:
  assumes "rounding rnd" "list_all in_range xs" "xs \<noteq> []"
  shows "is_finite (rnd (spec_mean (vals xs)))"
proof -
  have "vals xs \<noteq> []" using assms(3) by (simp add: vals_def)
  with set_vals_in_range [OF assms(2)] have "\<bar>spec_mean (vals xs)\<bar> \<le> max_float"
    by (rule spec_mean_bound)
  then have "\<bar>spec_mean (vals xs)\<bar> < overflow_threshold"
    using max_float_less_threshold by linarith
  with assms(1) show ?thesis by (rule rnd_finite)
qed

lemma is_finite_conv: "is_finite v \<longleftrightarrow> (\<exists>a. v = Fin a)"
  by (cases v) simp_all

lemma mean_finite_data:
  assumes "xs \<noteq> []" "list_all is_finite xs"
  shows "mean rnd xs =
           (if is_finite (rnd (spec_mean (vals xs))) then Inr (rnd (spec_mean (vals xs)))
            else Inl OverflowError)"
proof -
  have "\<not> length xs < 1" using assms(1) by (cases xs) simp_all
  then show ?thesis using assms(2)
    by (cases "rnd (spec_mean (vals xs))")
       (simp_all add: mean_def spec_mean_def vals_def Let_def)
qed

lemma stdev_finite_data:
  assumes "2 \<le> length xs" "list_all is_finite xs"
  shows "stdev rnd xs =
           (if is_finite (rnd (spec_stdev (vals xs))) then Inr (rnd (spec_stdev (vals xs)))
            else Inl OverflowError)"
proof -
  have "vals xs \<noteq> []" using assms(1) by (auto simp: vals_def)
  then have "ss (vals xs) = (\<Sum>x\<leftarrow>vals xs. (x - spec_mean (vals xs))\<^sup>2)" by (rule ss_eq_dev)
  then have "sqrt (ss (map fin_val xs) / (real (length xs) - 1)) = spec_stdev (vals xs)"
    by (simp add: spec_stdev_def vals_def)
  moreover have "\<not> length xs < 2" using assms(1) by simp
  ultimately show ?thesis using assms(2)
    by (cases "rnd (spec_stdev (vals xs))") (simp_all add: stdev_def Let_def)
qed

lemma stdev_not_finite_data:
  assumes "2 \<le> length xs" "\<not> list_all is_finite xs"
  shows "stdev rnd xs = Inl AttributeError"
  using assms by (simp add: stdev_def Let_def)

lemma stdev_Inr:
  assumes "rounding rnd" "stdev rnd xs = Inr v"
  shows "2 \<le> length xs \<and> list_all is_finite xs
       \<and> (\<exists>s. v = Fin s \<and> 0 \<le> s \<and> rnd (spec_stdev (vals xs)) = Fin s)"
proof -
  have len: "2 \<le> length xs" using assms(2) by (auto simp: stdev_def Let_def split: if_splits)
  have fin: "list_all is_finite xs"
    using assms(2) len by (auto simp: stdev_def Let_def split: if_splits)
  from assms(2) have v: "is_finite (rnd (spec_stdev (vals xs)))" "v = rnd (spec_stdev (vals xs))"
    unfolding stdev_finite_data [OF len fin] by (auto split: if_splits)
  then obtain s where s: "rnd (spec_stdev (vals xs)) = Fin s" by (auto simp: is_finite_conv)
  have "2 \<le> length (vals xs)" using len by simp
  then have "0 \<le> spec_stdev (vals xs)" by (rule spec_stdev_nonneg)
  from rnd_nonneg [OF assms(1) this] s have "0 \<le> s" by simp
  with len fin s v show ?thesis by simp
qed

lemma mean_Inr:
  assumes "mean rnd xs = Inr v" "list_all is_finite xs"
  shows "xs \<noteq> [] \<and> (\<exists>m. v = Fin m \<and> rnd (spec_mean (vals xs)) = Fin m)"
proof -
  have ne: "xs \<noteq> []" using assms(1) by (auto simp: mean_def Let_def)
  from assms(1) have "is_finite (rnd (spec_mean (vals xs)))" "v = rnd (spec_mean (vals xs))"
    unfolding mean_finite_data [OF ne assms(2)] by (auto split: if_splits)
  then obtain m where "rnd (spec_mean (vals xs)) = Fin m" "v = Fin m"
    by (cases "rnd (spec_mean (vals xs))") simp_all
  with ne show ?thesis by simp
qed

subsection \<open>calculate\_scores\<close>

lemma length_pings_of [simp]: "length (pings_of ms) = length (valid_measurements ms)"
  by (simp add: pings_of_def)

lemma length_speeds_of [simp]: "length (speeds_of ms) = length (valid_measurements ms)"
  by (simp add: speeds_of_def)

lemma valid_measurements_all_error:
  "\<forall>m\<in>set ms. m = ErrorMarker \<Longrightarrow> valid_measurements ms = []"
  by (induction ms) simp_all

lemma pings_of_nonempty: "2 \<le> length (valid_measurements ms) \<Longrightarrow> pings_of ms \<noteq> []"
  by (auto simp: pings_of_def)

lemma speeds_of_nonempty: "2 \<le> length (valid_measurements ms) \<Longrightarrow> speeds_of ms \<noteq> []"
  by (auto simp: speeds_of_def)

lemma fdiv_fquot: "b \<noteq> Fin 0 \<Longrightarrow> fdiv rnd a b = Inr (fquot rnd a b)"
  by (cases a; cases b) (simp_all add: fquot_def)

lemma fdiv_zero: "fdiv rnd a (Fin 0) = Inl ZeroDivisionError"
  by (cases a) simp_all

text \<open>One more than a rounded nonnegative number is not zero.\<close>

lemma fadd_one_nonzero:
  assumes "rounding rnd" "0 \<le> s"
  shows "py_le (Fin 1) (fadd rnd (Fin s) (Fin 1))"
  using rnd_mono [OF assms(1), of 1 "s + 1"] assms by simp

lemma ping_stability_eq:
  assumes r: "rounding rnd" and len: "2 \<le> length pings" and fin: "list_all is_finite pings"
      and sd: "is_finite (rnd (spec_stdev (vals pings)))"
  shows "ping_stability rnd pings = Inr (spec_ping_stability rnd (vals pings))"
proof -
  from sd obtain s where s: "rnd (spec_stdev (vals pings)) = Fin s"
    by (auto simp: is_finite_conv)
  have "0 \<le> spec_stdev (vals pings)" using len by (simp add: spec_stdev_nonneg)
  from rnd_nonneg [OF r this] s have "0 \<le> s" by simp
  from fadd_one_nonzero [OF r this] have "fadd rnd (Fin s) (Fin 1) \<noteq> Fin 0" by auto
  then show ?thesis
    by (simp add: ping_stability_def stdev_finite_data [OF len fin] sd s
        spec_ping_stability_def fdiv_fquot)
qed

lemma calculate_scores_eq:
  assumes r: "rounding rnd" and len: "2 \<le> length (valid_measurements ms)"
      and fin: "list_all is_finite (pings_of ms)" "list_all is_finite (speeds_of ms)"
      and sd: "is_finite (rnd (spec_stdev (vals (pings_of ms))))"
              "is_finite (rnd (spec_stdev (vals (speeds_of ms))))"
      and m: "is_finite (rnd (spec_mean (vals (pings_of ms))))"
             "is_finite (rnd (spec_mean (vals (speeds_of ms))))"
  shows "calculate_scores rnd ms =
           (if rnd (spec_mean (vals (speeds_of ms))) = Fin 0
               \<or> fadd rnd (fquot rnd (rnd (spec_stdev (vals (speeds_of ms))))
                                    (rnd (spec_mean (vals (speeds_of ms))))) (Fin 1) = Fin 0
            then Inl ZeroDivisionError
            else Inr (spec_stability rnd (vals (pings_of ms)) (vals (speeds_of ms)),
                      rnd (spec_mean (vals (speeds_of ms))),
                      rnd (spec_mean (vals (pings_of ms)))))"
proof -
  let ?P = "pings_of ms" and ?S = "speeds_of ms"
  have lp: "2 \<le> length ?P" and ls: "2 \<le> length ?S" using len by simp_all
  have ne: "?P \<noteq> []" "?S \<noteq> []"
    using len by (simp_all add: pings_of_nonempty speeds_of_nonempty)
  have lt: "\<not> length (valid_measurements ms) < 2" using len by simp
  note ps = ping_stability_eq [OF r lp fin(1) sd(1)]
  have sds: "stdev rnd ?S = Inr (rnd (spec_stdev (vals ?S)))"
    by (simp add: stdev_finite_data [OF ls fin(2)] sd(2))
  have ms: "mean rnd ?S = Inr (rnd (spec_mean (vals ?S)))"
    by (simp add: mean_finite_data [OF ne(2) fin(2)] m(2))
  have mp: "mean rnd ?P = Inr (rnd (spec_mean (vals ?P)))"
    by (simp add: mean_finite_data [OF ne(1) fin(1)] m(1))
  show ?thesis
  proof (cases "rnd (spec_mean (vals ?S)) = Fin 0")
    case True
    then have "speed_stability rnd ?S = Inl ZeroDivisionError"
      by (simp add: speed_stability_def coefficient_of_variation_def sds ms fdiv_zero)
    with True show ?thesis
      unfolding calculate_scores_def Let_def by (simp only: lt if_False ps bind_res_Inr) simp
  next
    case False
    note mz = False
    let ?cv = "fquot rnd (rnd (spec_stdev (vals ?S))) (rnd (spec_mean (vals ?S)))"
    have cv: "coefficient_of_variation rnd ?S = Inr ?cv"
      by (simp add: coefficient_of_variation_def sds ms fdiv_fquot [OF mz])
    show ?thesis
    proof (cases "fadd rnd ?cv (Fin 1) = Fin 0")
      case True
      then have "speed_stability rnd ?S = Inl ZeroDivisionError"
        by (simp add: speed_stability_def cv fdiv_zero)
      with True show ?thesis
        unfolding calculate_scores_def Let_def by (simp only: lt if_False ps bind_res_Inr) simp
    next
      case False
      then have ss: "speed_stability rnd ?S = Inr (spec_speed_stability rnd (vals ?S))"
        by (simp add: speed_stability_def cv fdiv_fquot spec_speed_stability_def)
      have two: "Fin 2 \<noteq> Fin 0" by simp
      show ?thesis
        unfolding calculate_scores_def Let_def
        by (simp only: lt if_False ps ss bind_res_Inr ms mp fdiv_fquot [OF two])
           (simp add: mz False spec_stability_def)
    qed
  qed
qed

subsection \<open>Scores, rankings and the sort\<close>

lemma rnd_bounded:
  assumes "rounding rnd" "n \<le> 1023" "\<bar>x\<bar> \<le> 2 ^ n"
  shows "\<exists>y. rnd x = Fin y \<and> \<bar>y\<bar> \<le> 2 ^ n"
proof -
  have k: "- 1074 \<le> int n" "int n \<le> 1023" using assms(2) by simp_all
  have p: "rnd (2 ^ n) = Fin (2 ^ n)" using rnd_pow2 [OF assms(1) k] by simp
  have m: "rnd (- (2 ^ n)) = Fin (- (2 ^ n))" using rnd_neg_pow2 [OF assms(1) k] by simp
  have "x \<le> 2 ^ n" "- (2 ^ n) \<le> x" using assms(3) by linarith+
  then have "py_le (rnd x) (Fin (2 ^ n))" "py_le (Fin (- (2 ^ n))) (rnd x)"
    using rnd_mono [OF assms(1), of x "2 ^ n"] rnd_mono [OF assms(1), of "- (2 ^ n)" x] p m
    by simp_all
  then obtain y where "rnd x = Fin y" "- (2 ^ n) \<le> y" "y \<le> 2 ^ n"
    using py_le_between by blast
  then show ?thesis by (intro exI [of _ y]) (simp add: abs_le_iff)
qed

lemma max_float_le: "max_float \<le> 2 ^ 1024"
  by (simp add: max_float_def)

lemma fdiv_representable:
  assumes "rounding rnd" "fdiv rnd a b = Inr (Fin y)"
  shows "rnd y = Fin y"
proof (cases b)
  case (Fin c)
  show ?thesis
  proof (cases a)
    case (Fin x)
    with \<open>b = Fin c\<close> assms(2) have "rnd (x / c) = Fin y" by (simp split: if_splits)
    with assms(1) show ?thesis by (rule rnd_idem)
  next
    case PInf
    with \<open>b = Fin c\<close> assms(2) show ?thesis by (simp add: inf_times_def split: if_splits)
  next
    case NInf
    with \<open>b = Fin c\<close> assms(2) show ?thesis by (simp add: inf_times_def split: if_splits)
  next
    case NaN
    with \<open>b = Fin c\<close> assms(2) show ?thesis by (simp split: if_splits)
  qed
next
  case PInf
  with assms show ?thesis by (cases a) simp_all
next
  case NInf
  with assms show ?thesis by (cases a) simp_all
next
  case NaN
  with assms show ?thesis by (cases a) simp_all
qed

lemma fquot_representable:
  assumes "rounding rnd" "fquot rnd a b = Fin y"
  shows "rnd y = Fin y"
proof (cases "fdiv rnd a b")
  case (Inl e)
  with assms(2) show ?thesis by (simp add: fquot_def)
next
  case (Inr q)
  with assms(2) have "fdiv rnd a b = Inr (Fin y)" by (simp add: fquot_def)
  with assms(1) show ?thesis by (rule fdiv_representable)
qed

lemma fdiv_one:
  assumes "\<And>y. st = Fin y \<Longrightarrow> rnd y = Fin y"
  shows "fdiv rnd st (Fin 1) = Inr st"
  using assms by (cases st) (simp_all add: inf_times_def)

lemma weighted_score_spec:
  assumes "\<And>y. st = Fin y \<Longrightarrow> rnd y = Fin y"
  shows "weighted_score rnd st sp pg = Inr (spec_weighted rnd st sp pg)"
proof -
  have c: "Fin 100 \<noteq> Fin 0" "Fin 1000 \<noteq> Fin 0" "Fin 8 \<noteq> Fin 0" by simp_all
  show ?thesis
    unfolding weighted_score_def spec_weighted_def Let_def
    by (simp only: fdiv_one [OF assms] fdiv_fquot [OF c(1)] fdiv_fquot [OF c(2)]
          fdiv_fquot [OF c(3)] bind_res_Inr)
qed

lemma weighted_score_total: "\<exists>w. weighted_score rnd a b c = Inr w"
proof -
  obtain q1 where q1: "fdiv rnd a (Fin 1) = Inr q1" using fdiv_const [of 1 rnd a] by auto
  obtain q2 where q2: "fdiv rnd b (Fin 100) = Inr q2" using fdiv_const [of 100 rnd b] by auto
  obtain q3 where q3: "fdiv rnd c (Fin 1000) = Inr q3" using fdiv_const [of 1000 rnd c] by auto
  show ?thesis unfolding weighted_score_def Let_def
    by (simp only: q1 q2 q3 bind_res_Inr) (rule fdiv_const, simp)
qed

text \<open>The normalized speed and ping of a finite average are finite.\<close>

lemma normalized_speed_finite:
  assumes r: "rounding rnd" and m: "\<bar>m\<bar> \<le> max_float"
  shows "\<exists>q z. fdiv rnd (Fin m) (Fin 100) = Inr q \<and> py_min q (Fin 1) = Fin z
           \<and> \<bar>z\<bar> \<le> 2 ^ 1018"
proof -
  have "\<bar>m\<bar> \<le> 2 ^ 1024" using m max_float_le by linarith
  then have "\<bar>m / 100\<bar> \<le> 2 ^ 1024 / 64" by (simp add: field_simps)
  then have "\<bar>m / 100\<bar> \<le> 2 ^ 1018" by simp
  from rnd_bounded [OF r _ this] obtain y where y: "rnd (m / 100) = Fin y" "\<bar>y\<bar> \<le> 2 ^ 1018"
    by auto
  have "py_min (Fin y) (Fin 1) = Fin (if 1 < y then 1 else y)" by (simp add: py_min_def)
  moreover have "\<bar>if 1 < y then 1 else y\<bar> \<le> 2 ^ 1018" using y(2) by simp
  ultimately show ?thesis using y(1) by simp
qed

lemma normalized_ping_finite:
  assumes r: "rounding rnd" and pg: "pg = PInf \<or> (\<exists>m. pg = Fin m \<and> \<bar>m\<bar> \<le> max_float)"
  shows "\<exists>q z. fdiv rnd pg (Fin 1000) = Inr q \<and> py_max (fsub rnd (Fin 1) q) (Fin 0) = Fin z
           \<and> 0 \<le> z \<and> z \<le> 2 ^ 1016"
  using pg
proof
  assume "pg = PInf"
  then show ?thesis by (simp add: inf_times_def fsub_def py_max_def)
next
  assume "\<exists>m. pg = Fin m \<and> \<bar>m\<bar> \<le> max_float"
  then obtain m where m: "pg = Fin m" "\<bar>m\<bar> \<le> max_float" by blast
  have "\<bar>m\<bar> \<le> 2 ^ 1024" using m(2) max_float_le by linarith
  then have "\<bar>m / 1000\<bar> \<le> 2 ^ 1024 / 512" by (simp add: field_simps)
  then have "\<bar>m / 1000\<bar> \<le> 2 ^ 1015" by simp
  from rnd_bounded [OF r _ this] obtain y where y: "rnd (m / 1000) = Fin y" "\<bar>y\<bar> \<le> 2 ^ 1015"
    by auto
  have "\<bar>1 - y\<bar> \<le> 1 + 2 ^ 1015" using y(2) by linarith
  also have "\<dots> \<le> (2::real) ^ 1016" by simp
  finally have "\<bar>1 - y\<bar> \<le> 2 ^ 1016" .
  from rnd_bounded [OF r _ this] obtain z where z: "rnd (1 - y) = Fin z" "\<bar>z\<bar> \<le> 2 ^ 1016"
    by auto
  have "py_max (Fin z) (Fin 0) = Fin (if z < 0 then 0 else z)" by (simp add: py_max_def)
  moreover have "0 \<le> (if z < 0 then 0 else z)" "(if z < 0 then 0 else z) \<le> 2 ^ 1016"
    using z(2) by auto
  ultimately show ?thesis using m(1) y(1) z(1) by (simp add: fsub_def)
qed

lemma weighted_score_not_NaN:
  assumes r: "rounding rnd" and st: "st \<noteq> NaN" and m: "\<bar>m\<bar> \<le> max_float"
      and pg: "pg = PInf \<or> (\<exists>m. pg = Fin m \<and> \<bar>m\<bar> \<le> max_float)"
  shows "\<exists>w. weighted_score rnd st (Fin m) pg = Inr w \<and> w \<noteq> NaN"
proof -
  from fdiv_const_not_NaN [OF r _ st, of 1] obtain ns where
    ns: "fdiv rnd st (Fin 1) = Inr ns" "ns \<noteq> NaN" by auto
  from normalized_speed_finite [OF r m] obtain q z where
    q: "fdiv rnd (Fin m) (Fin 100) = Inr q" "py_min q (Fin 1) = Fin z" "\<bar>z\<bar> \<le> 2 ^ 1018"
    by blast
  from normalized_ping_finite [OF r pg] obtain q' z' where
    q': "fdiv rnd pg (Fin 1000) = Inr q'" "py_max (fsub rnd (Fin 1) q') (Fin 0) = Fin z'"
      "0 \<le> z'" "z' \<le> 2 ^ 1016"
    by blast
  have a: "fmul rnd (Fin 4) ns \<noteq> NaN" using r _ ns(2) by (rule fmul_Fin_not_NaN) simp
  have "\<bar>3 * z\<bar> \<le> 4 * 2 ^ 1018" using q(3) by linarith
  then have "\<bar>3 * z\<bar> \<le> 2 ^ 1020" by simp
  from rnd_bounded [OF r _ this] obtain b where b: "rnd (3 * z) = Fin b" by auto
  have "\<bar>1 * z'\<bar> \<le> 2 ^ 1016" using q'(3,4) by simp
  from rnd_bounded [OF r _ this] obtain c where c: "rnd (1 * z') = Fin c" by auto
  have ab: "fadd rnd (fmul rnd (Fin 4) ns) (Fin b) \<noteq> NaN"
    using r a by (rule fadd_not_NaN_Fin)
  have abc: "fadd rnd (fadd rnd (fmul rnd (Fin 4) ns) (Fin b)) (Fin c) \<noteq> NaN"
    using r ab by (rule fadd_not_NaN_Fin)
  from fdiv_const_not_NaN [OF r _ abc, of 8] obtain w where
    w: "fdiv rnd (fadd rnd (fadd rnd (fmul rnd (Fin 4) ns) (Fin b)) (Fin c)) (Fin 8) = Inr w"
      "w \<noteq> NaN" by auto
  have "weighted_score rnd st (Fin m) pg = Inr w"
    unfolding weighted_score_def Let_def
    by (simp only: ns(1) q(1,2) q'(1,2) bind_res_Inr fmul.simps b c w(1))
  with w(2) show ?thesis by blast
qed

lemma ping_stability_Inr:
  assumes r: "rounding rnd" and p: "ping_stability rnd pings = Inr ps"
  shows "\<exists>y. ps = Fin y \<and> 0 \<le> y \<and> y \<le> 1"
proof -
  from p obtain sd where sd: "stdev rnd pings = Inr sd"
    and d: "fdiv rnd (Fin 1) (fadd rnd sd (Fin 1)) = Inr ps"
    by (auto simp: ping_stability_def bind_res_eq_Inr)
  from stdev_Inr [OF r sd] obtain s where s: "sd = Fin s" "0 \<le> s" by blast
  from fadd_one_nonzero [OF r s(2)] have "py_le (Fin 1) (fadd rnd (Fin s) (Fin 1))" .
  then consider "fadd rnd (Fin s) (Fin 1) = PInf"
    | x where "fadd rnd (Fin s) (Fin 1) = Fin x" "1 \<le> x"
    using py_le_Fin_lower by blast
  then show ?thesis
  proof cases
    case 1
    with d s(1) have "ps = Fin 0" by auto
    then show ?thesis by simp
  next
    case 2
    with d s(1) have ps: "ps = rnd (1 / x)" by (simp split: if_splits)
    have "of_int 0 \<le> 1 / x" "1 / x \<le> of_int 1" using 2(2) by simp_all
    from rnd_between [OF r _ _ this] ps show ?thesis by simp
  qed
qed

lemma speed_stability_Inr:
  assumes r: "rounding rnd" and p: "speed_stability rnd speeds = Inr sv"
  shows "sv \<noteq> NaN \<and> list_all is_finite speeds"
proof -
  from p obtain cv where cv: "coefficient_of_variation rnd speeds = Inr cv"
    and d: "fdiv rnd (Fin 1) (fadd rnd cv (Fin 1)) = Inr sv"
    by (auto simp: speed_stability_def bind_res_eq_Inr)
  from cv obtain sd m where sd: "stdev rnd speeds = Inr sd" and m: "mean rnd speeds = Inr m"
    and q: "fdiv rnd sd m = Inr cv"
    by (auto simp: coefficient_of_variation_def bind_res_eq_Inr)
  from stdev_Inr [OF r sd] obtain s where s: "sd = Fin s" and fin: "list_all is_finite speeds"
    by blast
  from mean_Inr [OF m fin] obtain mv where mv: "m = Fin mv" by blast
  from q s mv have "cv = rnd (s / mv)" by (simp split: if_splits)
  then have "cv \<noteq> NaN" using rnd_not_NaN [OF r] by simp
  then have n: "fadd rnd cv (Fin 1) \<noteq> NaN" using r by (intro fadd_not_NaN_Fin)
  have z: "fadd rnd cv (Fin 1) \<noteq> Fin 0" using d by (auto simp: fdiv_zero)
  from fdiv_Fin_not_NaN [OF r n z, of 1] d fin show ?thesis by simp
qed

lemma calculate_scores_shape:
  assumes r: "rounding rnd" and c: "calculate_scores rnd ms = Inr (st, sp, pg)"
  shows "st \<noteq> NaN \<and> (\<forall>y. st = Fin y \<longrightarrow> rnd y = Fin y)
       \<and> (\<exists>m. sp = Fin m \<and> \<bar>m\<bar> \<le> max_float)
       \<and> (pg = PInf \<or> (\<exists>m. pg = Fin m \<and> \<bar>m\<bar> \<le> max_float))"
proof (cases "length (valid_measurements ms) < 2")
  case True
  with c have "st = Fin 0" "sp = Fin 0" "pg = PInf" by (auto simp: calculate_scores_def)
  then show ?thesis using r max_float_pos by simp
next
  case False
  with c obtain ps sv where ps: "ping_stability rnd (pings_of ms) = Inr ps"
    and ssp: "speed_stability rnd (speeds_of ms) = Inr sv"
    and st: "fdiv rnd (fadd rnd ps sv) (Fin 2) = Inr st"
    and sp: "mean rnd (speeds_of ms) = Inr sp"
    and pg: "mean rnd (pings_of ms) = Inr pg"
    by (auto simp: calculate_scores_def Let_def bind_res_eq_Inr)
  from ping_stability_Inr [OF r ps] obtain y where y: "ps = Fin y" by blast
  from speed_stability_Inr [OF r ssp] have ssn: "sv \<noteq> NaN"
    and fs: "list_all is_finite (speeds_of ms)" by simp_all
  from ps obtain sd where "stdev rnd (pings_of ms) = Inr sd"
    by (auto simp: ping_stability_def bind_res_eq_Inr)
  from stdev_Inr [OF r this] have fp: "list_all is_finite (pings_of ms)" by simp
  have "fadd rnd ps sv \<noteq> NaN" unfolding y using r ssn by (rule fadd_Fin_not_NaN)
  from fdiv_const_not_NaN [OF r _ this, of 2] st have 1: "st \<noteq> NaN" by simp
  have 2: "\<forall>y. st = Fin y \<longrightarrow> rnd y = Fin y" using fdiv_representable [OF r] st by blast
  from mean_Inr [OF sp fs] obtain m where m: "sp = Fin m" "rnd (spec_mean (vals (speeds_of ms))) = Fin m"
    by blast
  from mean_Inr [OF pg fp] obtain m' where m': "pg = Fin m'" "rnd (spec_mean (vals (pings_of ms))) = Fin m'"
    by blast
  from rnd_max [OF r m(2)] rnd_max [OF r m'(2)] m(1) m'(1) 1 2 show ?thesis by simp
qed

lemma score_server_Inr:
  assumes r: "rounding rnd" and s: "score_server rnd item = Inr e"
  shows "server_of e = fst item \<and> weighted_of e \<noteq> NaN"
proof -
  obtain name fm where item: "item = (name, fm)" by (cases item)
  from s item obtain st sp pg where
    cs: "calculate_scores rnd (all_measurements fm) = Inr (st, sp, pg)"
    by (cases "calculate_scores rnd (all_measurements fm)") (auto simp: score_server_def)
  from calculate_scores_shape [OF r cs] obtain m where st: "st \<noteq> NaN"
    and sp: "sp = Fin m" "\<bar>m\<bar> \<le> max_float"
    and pg: "pg = PInf \<or> (\<exists>m. pg = Fin m \<and> \<bar>m\<bar> \<le> max_float)" by blast
  from weighted_score_not_NaN [OF r st sp(2) pg] obtain w where
    "weighted_score rnd st (Fin m) pg = Inr w" "w \<noteq> NaN" by blast
  with s item cs sp(1) show ?thesis
    by (auto simp: score_server_def server_of_def weighted_of_def)
qed

lemma build_rankings_Inr:
  "build_rankings rnd data = Inr rs \<Longrightarrow>
     list_all2 (\<lambda>item e. score_server rnd item = Inr e) data rs"
proof (induction data arbitrary: rs)
  case Nil
  then show ?case by simp
next
  case (Cons item rest)
  from Cons.prems obtain e rs' where e: "score_server rnd item = Inr e"
    and rs': "build_rankings rnd rest = Inr rs'" and rs: "rs = e # rs'"
    by (auto simp: bind_res_eq_Inr)
  from Cons.IH [OF rs'] e rs show ?case by simp
qed

lemma build_rankings_names:
  assumes "rounding rnd" "build_rankings rnd data = Inr rs"
  shows "map server_of rs = map fst data"
proof -
  have "list_all2 (\<lambda>item e. server_of e = fst item) data rs"
    using build_rankings_Inr [OF assms(2)] score_server_Inr [OF assms(1)]
    by (auto elim!: list_all2_mono)
  then show ?thesis
    by (induction rule: list_all2_induct) simp_all
qed

lemma build_rankings_not_NaN:
  assumes "rounding rnd" "build_rankings rnd data = Inr rs" "e \<in> set rs"
  shows "weighted_of e \<noteq> NaN"
proof -
  from assms(3) obtain i where i: "i < length rs" "rs ! i = e"
    by (auto simp: in_set_conv_nth)
  from list_all2_nthD2 [OF build_rankings_Inr [OF assms(2)] i(1)] i(2)
  have "score_server rnd (data ! i) = Inr e" by simp
  with assms(1) show ?thesis using score_server_Inr by blast
qed

lemma build_rankings_member:
  assumes "build_rankings rnd data = Inr rs" "item \<in> set data"
  shows "\<exists>e\<in>set rs. score_server rnd item = Inr e"
  using build_rankings_Inr [OF assms(1)] assms(2)
  by (auto simp: list_all2_conv_all_nth in_set_conv_nth)

lemma build_rankings_fails:
  "item \<in> set data \<Longrightarrow> score_server rnd item = Inl e \<Longrightarrow>
     \<exists>e'. build_rankings rnd data = Inl e'"
proof (induction data)
  case Nil
  then show ?case by simp
next
  case (Cons a rest)
  show ?case
  proof (cases "score_server rnd a")
    case (Inl e')
    then show ?thesis by simp
  next
    case (Inr r)
    with Cons have "item \<in> set rest" by auto
    then obtain e' where "build_rankings rnd rest = Inl e'" using Cons by blast
    with Inr show ?thesis by simp
  qed
qed

lemma insort_lt_eq:
  assumes "\<forall>y\<in>set (x # ys). key y \<noteq> NaN"
  shows "insort_lt key x ys = insort_key (\<lambda>y. ord_val (key y)) x ys"
  using assms
proof (induction ys)
  case Nil
  then show ?case by simp
next
  case (Cons y ys)
  from Cons.prems have n: "key x \<noteq> NaN" "key y \<noteq> NaN" by auto
  moreover have "insort_lt key x ys = insort_key (\<lambda>y. ord_val (key y)) x ys"
    using Cons by simp
  ultimately show ?case by (auto simp: py_lt_ord_val)
qed

lemma sort_lt_eq:
  assumes "\<forall>y\<in>set xs. key y \<noteq> NaN"
  shows "sort_lt key xs = sort_key (\<lambda>y. ord_val (key y)) xs"
  using assms
proof (induction xs)
  case Nil
  then show ?case by (simp add: sort_lt_def)
next
  case (Cons x xs)
  have IH: "sort_lt key xs = sort_key (\<lambda>y. ord_val (key y)) xs" using Cons by simp
  have "\<forall>y\<in>set (x # sort_key (\<lambda>y. ord_val (key y)) xs). key y \<noteq> NaN"
    using Cons.prems by simp
  from insort_lt_eq [OF this] IH show ?case by (simp add: sort_lt_def)
qed

lemma sorted_reverse_props:
  fixes key :: "'a \<Rightarrow> pyfloat"
  assumes fin: "\<forall>y\<in>set xs. key y \<noteq> NaN"
  shows "mset (sorted_reverse key xs) = mset xs"
    and "sorted_wrt (\<lambda>a b. py_le (key b) (key a)) (sorted_reverse key xs)"
    and "filter (\<lambda>y. key y = k) (sorted_reverse key xs) = filter (\<lambda>y. key y = k) xs"
proof -
  let ?f = "\<lambda>y. ord_val (key y)"
  have fin': "\<forall>y\<in>set (rev xs). key y \<noteq> NaN" using fin by simp
  have eq: "sorted_reverse key xs = rev (sort_key ?f (rev xs))"
    by (simp add: sorted_reverse_def sort_lt_eq [OF fin'])
  show m: "mset (sorted_reverse key xs) = mset xs" by (simp add: eq)
  have "sorted (map ?f (sort_key ?f (rev xs)))" by (rule sorted_sort_key)
  then have sw: "sorted_wrt (\<lambda>a b. ?f b \<le> ?f a) (sorted_reverse key xs)"
    by (simp add: eq sorted_wrt_rev sorted_map)
  have fo: "\<forall>y\<in>set (sorted_reverse key xs). key y \<noteq> NaN"
    using fin set_mset_mset m by (metis)
  have "py_le (key b) (key a)"
    if "a \<in> set (sorted_reverse key xs)" "b \<in> set (sorted_reverse key xs)" "?f b \<le> ?f a"
    for a b
    using that fo by (simp add: py_le_ord_val)
  then show "sorted_wrt (\<lambda>a b. py_le (key b) (key a)) (sorted_reverse key xs)"
    using sw by (rule sorted_wrt_mono_rel)
  have c: "filter (\<lambda>y. key y = k) ys = filter (\<lambda>y. ?f y = ord_val k) ys" for ys
    by (simp add: ord_val_eq)
  have "filter (\<lambda>y. ?f y = ord_val k) (sorted_reverse key xs)
      = rev (filter (\<lambda>y. ?f y = ord_val k) (rev xs))"
    unfolding eq rev_filter [symmetric] sort_key_stable ..
  also have "\<dots> = filter (\<lambda>y. ?f y = ord_val k) xs" by (simp add: rev_filter)
  finally show "filter (\<lambda>y. key y = k) (sorted_reverse key xs) = filter (\<lambda>y. key y = k) xs"
    by (simp add: c)
qed

lemma rank_nodes_Inr:
  assumes "rank_nodes rnd data = Inr out"
  shows "\<exists>rs. build_rankings rnd data = Inr rs \<and> out = sorted_reverse weighted_of rs"
  using assms by (cases "build_rankings rnd data") (auto simp: rank_nodes_def)

lemma rank_nodes_set:
  assumes "rounding rnd" "rank_nodes rnd data = Inr out" "build_rankings rnd data = Inr rs"
  shows "set out = set rs"
proof -
  have fin: "\<forall>e\<in>set rs. weighted_of e \<noteq> NaN"
    using build_rankings_not_NaN [OF assms(1,3)] by blast
  have "out = sorted_reverse weighted_of rs" using assms by (simp add: rank_nodes_def)
  then have "mset out = mset rs" using sorted_reverse_props(1) [OF fin] by simp
  then show ?thesis by (rule mset_eq_setD)
qed

lemma rank_nodes_member:
  assumes "rounding rnd" "rank_nodes rnd data = Inr out" "item \<in> set data"
  shows "\<exists>e\<in>set out. score_server rnd item = Inr e"
proof -
  from rank_nodes_Inr [OF assms(2)] obtain rs where rs: "build_rankings rnd data = Inr rs"
    by blast
  from build_rankings_member [OF rs assms(3)] rank_nodes_set [OF assms(1,2) rs]
  show ?thesis by simp
qed

lemma rank_nodes_sorted:
  assumes "rounding rnd" "rank_nodes rnd data = Inr out"
  shows "sorted_wrt (\<lambda>a b. py_le (weighted_of b) (weighted_of a)) out"
proof -
  from rank_nodes_Inr [OF assms(2)] obtain rs where
    rs: "build_rankings rnd data = Inr rs" and out: "out = sorted_reverse weighted_of rs"
    by blast
  have fin: "\<forall>e\<in>set rs. weighted_of e \<noteq> NaN"
    using build_rankings_not_NaN [OF assms(1) rs] by blast
  show ?thesis unfolding out by (rule sorted_reverse_props(2) [OF fin])
qed

subsection \<open>Bounds on the scores\<close>

lemma rnd_inv_pow2:
  assumes "rounding rnd" "n \<le> 1074"
  shows "rnd (1 / 2 ^ n) = Fin (1 / 2 ^ n)"
proof -
  have "(2::real) powi (- int n) = 1 / 2 ^ n"
    by (simp add: power_int_minus divide_inverse)
  moreover have "rnd (2 powi (- int n)) = Fin (2 powi (- int n))"
    using assms by (intro rnd_pow2) simp_all
  ultimately show ?thesis by simp
qed

lemma rnd_range:
  assumes r: "rounding rnd" and n: "n \<le> 1074" and hi: "\<bar>hi\<bar> \<le> 2 ^ 53"
      and x: "1 / 2 ^ n \<le> x" "x \<le> of_int hi"
  shows "\<exists>y. rnd x = Fin y \<and> 1 / 2 ^ n \<le> y \<and> y \<le> of_int hi"
proof -
  have "py_le (Fin (1 / 2 ^ n)) (rnd x)"
    using rnd_mono [OF r x(1)] rnd_inv_pow2 [OF r n] by simp
  moreover have "py_le (rnd x) (Fin (of_int hi))"
    using rnd_mono [OF r x(2)] rnd_int [OF r hi] by simp
  ultimately show ?thesis by (rule py_le_between)
qed

lemma max_float_succ: "max_float + 1 < overflow_threshold"
  by (simp add: max_float_def overflow_threshold_def)

lemma ping_stability_bounds:
  assumes r: "rounding rnd" and len: "2 \<le> length xs"
      and sd: "is_finite (rnd (spec_stdev xs))"
  shows "\<exists>y. spec_ping_stability rnd xs = Fin y \<and> 1 / 2 ^ 1024 \<le> y \<and> y \<le> 1"
proof -
  from sd obtain s where s: "rnd (spec_stdev xs) = Fin s" by (auto simp: is_finite_conv)
  have "0 \<le> spec_stdev xs" using len by (rule spec_stdev_nonneg)
  from rnd_nonneg [OF r this] s have s0: "0 \<le> s" by simp
  have sm: "s \<le> max_float" using rnd_max [OF r s] by linarith
  then have "\<bar>s + 1\<bar> < overflow_threshold" using s0 max_float_succ by linarith
  from rnd_finite [OF r this] obtain x where x: "rnd (s + 1) = Fin x"
    by (auto simp: is_finite_conv)
  from fadd_one_nonzero [OF r s0] x have x1: "1 \<le> x" by simp
  have "x \<le> max_float" using rnd_max [OF r x] by linarith
  then have "x \<le> 2 ^ 1024" using max_float_le by linarith
  then have "1 / 2 ^ 1024 \<le> 1 / x" using x1 by (simp add: field_simps)
  moreover have "1 / x \<le> of_int 1" using x1 by simp
  ultimately obtain y where "rnd (1 / x) = Fin y" "1 / 2 ^ 1024 \<le> y" "y \<le> of_int 1"
    using rnd_range [OF r, of 1024 1 "1 / x"] by auto
  then show ?thesis using x x1 by (simp add: spec_ping_stability_def s fquot_def)
qed

lemma speed_stability_bounds:
  assumes r: "rounding rnd" and len: "2 \<le> length xs"
      and sd: "is_finite (rnd (spec_stdev xs))"
      and m: "rnd (spec_mean xs) = Fin m" "0 < m"
  shows "fadd rnd (fquot rnd (rnd (spec_stdev xs)) (rnd (spec_mean xs))) (Fin 1) \<noteq> Fin 0
       \<and> (\<exists>y. spec_speed_stability rnd xs = Fin y \<and> 0 \<le> y \<and> y \<le> 1)"
proof -
  from sd obtain s where s: "rnd (spec_stdev xs) = Fin s" by (auto simp: is_finite_conv)
  have "0 \<le> spec_stdev xs" using len by (rule spec_stdev_nonneg)
  from rnd_nonneg [OF r this] s have s0: "0 \<le> s" by simp
  have cv: "fquot rnd (rnd (spec_stdev xs)) (rnd (spec_mean xs)) = rnd (s / m)"
    using m by (simp add: s fquot_def)
  have "0 \<le> s / m" using s0 m(2) by simp
  from rnd_nonneg [OF r this] consider "rnd (s / m) = PInf"
    | c where "rnd (s / m) = Fin c" "0 \<le> c" by blast
  then show ?thesis
  proof cases
    case 1
    then show ?thesis unfolding spec_speed_stability_def cv by (simp add: fquot_def)
  next
    case 2
    from fadd_one_nonzero [OF r 2(2)] have le: "py_le (Fin 1) (rnd (c + 1))" by simp
    then consider "rnd (c + 1) = PInf" | x where "rnd (c + 1) = Fin x" "1 \<le> x"
      using py_le_Fin_lower by blast
    then show ?thesis
    proof cases
      case 1
      then show ?thesis using 2(1) unfolding spec_speed_stability_def cv
        by (simp add: fquot_def)
    next
      case 2
      note x = this
      have "of_int 0 \<le> 1 / x" "1 / x \<le> of_int 1" using x(2) by simp_all
      from rnd_between [OF r _ _ this] obtain y where "rnd (1 / x) = Fin y" "0 \<le> y" "y \<le> 1"
        by auto
      then show ?thesis using x \<open>rnd (s / m) = Fin c\<close>
        unfolding spec_speed_stability_def cv by (simp add: fquot_def)
    qed
  qed
qed

lemma stability_bounds:
  assumes r: "rounding rnd"
      and p: "spec_ping_stability rnd ps = Fin a" "1 / 2 ^ 1024 \<le> a" "a \<le> 1"
      and s: "spec_speed_stability rnd ss' = Fin b" "0 \<le> b" "b \<le> 1"
  shows "\<exists>y. spec_stability rnd ps ss' = Fin y \<and> 1 / 2 ^ 1025 \<le> y \<and> y \<le> 1
           \<and> rnd y = Fin y"
proof -
  have "1 / 2 ^ 1024 \<le> a + b" "a + b \<le> of_int 2" using p(2,3) s(2,3) by simp_all
  from rnd_range [OF r _ _ this] obtain t where
    t: "rnd (a + b) = Fin t" "1 / 2 ^ 1024 \<le> t" "t \<le> 2" by auto
  have "1 / 2 ^ 1025 \<le> t / 2" "t / 2 \<le> of_int 1" using t(2,3) by simp_all
  from rnd_range [OF r _ _ this] obtain y where
    y: "rnd (t / 2) = Fin y" "1 / 2 ^ 1025 \<le> y" "y \<le> 1" by auto
  have "spec_stability rnd ps ss' = Fin y"
    by (simp add: spec_stability_def p(1) s(1) t(1) fquot_def y(1))
  with y rnd_idem [OF r y(1)] show ?thesis by simp
qed

lemma weighted_bounds:
  assumes r: "rounding rnd"
      and st: "1 / 2 ^ 1025 \<le> st" "st \<le> 1"
      and m: "0 \<le> m" "m \<le> max_float"
      and mp: "0 \<le> mp" "mp \<le> max_float"
  shows "\<exists>w. spec_weighted rnd (Fin st) (Fin m) (Fin mp) = Fin w
           \<and> 1 / 2 ^ 1026 \<le> w \<and> w \<le> 1"
proof -
  have "1 / 2 ^ 1023 \<le> 4 * st" "4 * st \<le> of_int 4" using st by simp_all
  from rnd_range [OF r _ _ this] obtain a where
    a: "rnd (4 * st) = Fin a" "1 / 2 ^ 1023 \<le> a" "a \<le> 4" by auto
  \<comment> \<open>the speed term\<close>
  have "\<bar>m\<bar> \<le> max_float" using m by simp
  from normalized_speed_finite [OF r this] obtain q z where
    q: "fdiv rnd (Fin m) (Fin 100) = Inr q" "py_min q (Fin 1) = Fin z" by blast
  have "0 \<le> m / 100" using m(1) by simp
  from rnd_nonneg [OF r this] q(1) have "q = PInf \<or> (\<exists>y. q = Fin y \<and> 0 \<le> y)" by simp
  with q(2) have z: "0 \<le> z" "z \<le> 1" by (auto simp: py_min_def split: if_splits)
  have "of_int 0 \<le> 3 * z" "3 * z \<le> of_int 3" using z by simp_all
  from rnd_between [OF r _ _ this] obtain b where
    b: "rnd (3 * z) = Fin b" "0 \<le> b" "b \<le> 3" by auto
  \<comment> \<open>the ping term\<close>
  have "Fin mp = PInf \<or> (\<exists>m. Fin mp = Fin m \<and> \<bar>m\<bar> \<le> max_float)" using mp by simp
  from normalized_ping_finite [OF r this] obtain q' z' where
    q': "fdiv rnd (Fin mp) (Fin 1000) = Inr q'"
        "py_max (fsub rnd (Fin 1) q') (Fin 0) = Fin z'" "0 \<le> z'" by blast
  have "0 \<le> mp / 1000" using mp(1) by simp
  from rnd_nonneg [OF r this] q'(1) have "q' = PInf \<or> (\<exists>y. q' = Fin y \<and> 0 \<le> y)" by simp
  then have "z' \<le> 1"
  proof
    assume "q' = PInf"
    with q'(2) show ?thesis by (simp add: fsub_def py_max_def)
  next
    assume "\<exists>y. q' = Fin y \<and> 0 \<le> y"
    then obtain y where y: "q' = Fin y" "0 \<le> y" by blast
    have "1 - y \<le> of_int 1" using y(2) by simp
    from rnd_le_int [OF r _ this] q'(2) y(1) show ?thesis
      by (auto simp: fsub_def py_max_def split: if_splits)
  qed
  have "of_int 0 \<le> 1 * z'" "1 * z' \<le> of_int 1" using q'(3) \<open>z' \<le> 1\<close> by simp_all
  from rnd_between [OF r _ _ this] obtain c where
    c: "rnd (1 * z') = Fin c" "0 \<le> c" "c \<le> 1" by auto
  \<comment> \<open>the sum and the quotient\<close>
  have "1 / 2 ^ 1023 \<le> a + b" "a + b \<le> of_int 7" using a(2,3) b(2,3) by simp_all
  from rnd_range [OF r _ _ this] obtain ab where
    ab: "rnd (a + b) = Fin ab" "1 / 2 ^ 1023 \<le> ab" "ab \<le> 7" by auto
  have "1 / 2 ^ 1023 \<le> ab + c" "ab + c \<le> of_int 8" using ab(2,3) c(2,3) by simp_all
  from rnd_range [OF r _ _ this] obtain abc where
    abc: "rnd (ab + c) = Fin abc" "1 / 2 ^ 1023 \<le> abc" "abc \<le> 8" by auto
  have "1 / 2 ^ 1026 \<le> abc / 8" "abc / 8 \<le> of_int 1" using abc(2,3) by simp_all
  from rnd_range [OF r _ _ this] obtain w where
    w: "rnd (abc / 8) = Fin w" "1 / 2 ^ 1026 \<le> w" "w \<le> 1" by auto
  have "spec_weighted rnd (Fin st) (Fin m) (Fin mp) = Fin w"
    unfolding spec_weighted_def
    by (simp only: fquot_eq [OF q(1)] fquot_eq [OF q'(1)] q(2) q'(2) fmul.simps fadd.simps
          a(1) b(1) c(1) ab(1) abc(1))
       (simp add: fquot_def w(1))
  with w show ?thesis by blast
qed

subsection \<open>Ingestion\<close>

lemma upper_char_fixed: "\<not> (CHR ''a'' \<le> c \<and> c \<le> CHR ''z'') \<Longrightarrow> upper_char c = c"
  unfolding upper_char_def by (rule if_not_P)

lemma upper_char_E:
  assumes "upper_char c = CHR ''E''"
  shows "\<not> is_space c \<and> \<not> is_digit c \<and> c \<noteq> CHR ''-'' \<and> c \<noteq> CHR ''+'' \<and> c \<noteq> CHR ''.''"
proof -
  have "upper_char c \<noteq> CHR ''E''"
    if "is_space c \<or> is_digit c \<or> c = CHR ''-'' \<or> c = CHR ''+'' \<or> c = CHR ''.''"
  proof -
    from that have "\<not> (CHR ''a'' \<le> c \<and> c \<le> CHR ''z'')"
      by (auto simp: is_space_def is_digit_def less_eq_char_def)
    then have "upper_char c = c" by (rule upper_char_fixed)
    with that show ?thesis by (auto simp: is_space_def is_digit_def less_eq_char_def)
  qed
  with assms show ?thesis by blast
qed

lemma upper_char_R:
  assumes "upper_char c = CHR ''R''"
  shows "\<not> is_space c"
proof
  assume s: "is_space c"
  then have "\<not> (CHR ''a'' \<le> c \<and> c \<le> CHR ''z'')"
    by (auto simp: is_space_def less_eq_char_def)
  then have "upper_char c = c" by (rule upper_char_fixed)
  with s assms show False by (auto simp: is_space_def)
qed

lemma float_literal_error:
  assumes "explicit_error v"
  shows "float_literal rnd v = None"
proof (cases "v = []")
  case True
  then show ?thesis by (simp add: float_literal_def strip_def)
next
  case False
  with assms have u: "upper v = ''ERROR''" by (simp add: explicit_error_def)
  then obtain c1 c2 c3 c4 c5 where v: "v = [c1, c2, c3, c4, c5]"
    and c: "upper_char c1 = CHR ''E''" "upper_char c5 = CHR ''R''"
    by (auto simp: upper_def map_eq_Cons_conv)
  note e = upper_char_E [OF c(1)] and r = upper_char_R [OF c(2)]
  have s: "strip v = v" using e r by (simp add: strip_def v)
  have "unsigned_literal rnd v = None"
    unfolding unsigned_literal_def u using e by (simp add: v)
  then show ?thesis using e by (simp add: float_literal_def s) (simp add: v)
qed

lemma parse_value_flt:
  assumes "\<forall>v. explicit_error v \<longrightarrow> flt v = None"
  shows "parse_value flt v = flt v"
  using assms by (auto simp: parse_value_def explicit_error_def)

lemma map_of_append_at:
  "map_of (append_at f x ds) f' =
     (if f' = f then Some ((case map_of ds f of None \<Rightarrow> [] | Some xs \<Rightarrow> xs) @ [x])
      else map_of ds f')"
  by (induction ds) auto

lemma samples_at_record_sample:
  "samples_at (record_sample s f x data) s' f' =
     (if s' = s \<and> f' = f then samples_at data s f @ [x] else samples_at data s' f')"
proof (induction data)
  case Nil
  show ?case by (simp add: samples_at_def)
next
  case (Cons a data)
  obtain k ds where a: "a = (k, ds)" by (cases a)
  show ?case using Cons
    by (auto simp: a samples_at_def map_of_append_at split: option.splits)
qed

lemma record_sample_neq: "record_sample s f x data \<noteq> data"
proof
  assume "record_sample s f x data = data"
  then have "samples_at (record_sample s f x data) s f = samples_at data s f" by simp
  then show False by (simp add: samples_at_record_sample)
qed









subsection \<open>Servers with finite nonnegative values\<close>

lemma sum_list_sq_le:
  fixes xs :: "real list"
  assumes "\<forall>x\<in>set xs. 0 \<le> x \<and> x \<le> M"
  shows "(\<Sum>x\<leftarrow>xs. x * x) \<le> M * sum_list xs"
  using assms
proof (induction xs)
  case Nil
  show ?case by simp
next
  case (Cons a xs)
  then have "a * a \<le> M * a" by (simp add: mult_right_mono)
  moreover have "(\<Sum>x\<leftarrow>xs. x * x) \<le> M * sum_list xs" using Cons by simp
  ultimately show ?case by (simp add: algebra_simps)
qed

lemma sum_sq_dev_bound:
  fixes xs :: "real list"
  assumes b: "\<forall>x\<in>set xs. 0 \<le> x \<and> x \<le> M" and ne: "xs \<noteq> []"
  shows "(\<Sum>x\<leftarrow>xs. (x - spec_mean xs)\<^sup>2) \<le> real (length xs) * M\<^sup>2 / 4"
proof -
  let ?n = "real (length xs)"
  let ?m = "spec_mean xs"
  have n: "0 < ?n" using ne by simp
  have s: "sum_list xs = ?n * ?m" using n by (simp add: spec_mean_def)
  have "(\<Sum>x\<leftarrow>xs. (x - ?m)\<^sup>2) = (\<Sum>x\<leftarrow>xs. x * x) - 2 * ?m * sum_list xs + ?n * ?m\<^sup>2"
    by (rule sum_sq_dev)
  also have "\<dots> = (\<Sum>x\<leftarrow>xs. x * x) - ?n * ?m\<^sup>2"
    unfolding s by (simp add: power2_eq_square algebra_simps)
  also have "\<dots> \<le> M * (?n * ?m) - ?n * ?m\<^sup>2"
    using sum_list_sq_le [OF b] unfolding s by simp
  also have "\<dots> = ?n * (?m * (M - ?m))"
    by (simp add: power2_eq_square algebra_simps)
  also have "\<dots> \<le> ?n * (M\<^sup>2 / 4)"
  proof -
    have "0 \<le> (?m - M / 2)\<^sup>2" by simp
    then have "?m * (M - ?m) \<le> M\<^sup>2 / 4"
      by (simp add: power2_eq_square algebra_simps)
    then show ?thesis using n by (intro mult_left_mono) simp_all
  qed
  finally show ?thesis by simp
qed

lemma spec_stdev_bound:
  fixes xs :: "real list"
  assumes b: "\<forall>x\<in>set xs. 0 \<le> x \<and> x \<le> M" and len: "2 \<le> length xs"
  shows "spec_stdev xs \<le> M"
proof -
  let ?n = "real (length xs)"
  let ?d = "\<Sum>x\<leftarrow>xs. (x - spec_mean xs)\<^sup>2"
  have ne: "xs \<noteq> []" using len by auto
  have n: "2 \<le> ?n" using len by simp
  from ne obtain x where "x \<in> set xs" by (cases xs) auto
  with b have M: "0 \<le> M" by force
  have d: "?d \<le> ?n * M\<^sup>2 / 4" using b ne by (rule sum_sq_dev_bound)
  have "?d / (?n - 1) \<le> (?n * M\<^sup>2 / 4) / (?n - 1)"
    using d n by (intro divide_right_mono) simp_all
  also have "\<dots> = (?n / (?n - 1)) * (M\<^sup>2 / 4)" by simp
  also have "\<dots> \<le> 2 * (M\<^sup>2 / 4)"
  proof (rule mult_right_mono)
    show "?n / (?n - 1) \<le> 2" using n by (simp add: field_simps)
    show "0 \<le> M\<^sup>2 / 4" by simp
  qed
  also have "\<dots> \<le> M\<^sup>2" by simp
  finally have "sqrt (?d / (?n - 1)) \<le> sqrt (M\<^sup>2)" by (rule real_sqrt_le_mono)
  then show ?thesis using M by (simp add: spec_stdev_def)
qed

text \<open>A finite double that is not negative.\<close>

lemma vals_nonneg:
  assumes "list_all in_range xs" "\<forall>v\<in>set xs. py_le (Fin 0) v"
  shows "\<forall>x\<in>set (vals xs). 0 \<le> x \<and> x \<le> max_float"
proof
  fix x assume "x \<in> set (vals xs)"
  then obtain v where v: "v \<in> set xs" "x = fin_val v" by (auto simp: vals_def)
  with assms have "in_range v" "py_le (Fin 0) v" by (auto simp: list_all_iff)
  with v(2) show "0 \<le> x \<and> x \<le> max_float" by (cases v) auto
qed

lemma stdev_nonneg_finite:
  assumes r: "rounding rnd" and len: "2 \<le> length xs"
      and rg: "list_all in_range xs" and nn: "\<forall>v\<in>set xs. py_le (Fin 0) v"
  shows "is_finite (rnd (spec_stdev (vals xs)))"
proof -
  have "spec_stdev (vals xs) \<le> max_float"
    using vals_nonneg [OF rg nn] len by (intro spec_stdev_bound) simp_all
  moreover have "0 \<le> spec_stdev (vals xs)" using len by (intro spec_stdev_nonneg) simp
  ultimately have "\<bar>spec_stdev (vals xs)\<bar> < overflow_threshold"
    using max_float_less_threshold by linarith
  with r show ?thesis by (rule rnd_finite)
qed

lemma score_server_formula:
  assumes r: "rounding rnd" and len: "2 \<le> length (valid_measurements ms)"
      and rg: "list_all in_range (pings_of ms)" "list_all in_range (speeds_of ms)"
      and sd: "is_finite (rnd (spec_stdev (vals (pings_of ms))))"
              "is_finite (rnd (spec_stdev (vals (speeds_of ms))))"
      and mz: "rnd (spec_mean (vals (speeds_of ms))) \<noteq> Fin 0"
      and cz: "fadd rnd (fquot rnd (rnd (spec_stdev (vals (speeds_of ms))))
                                    (rnd (spec_mean (vals (speeds_of ms))))) (Fin 1) \<noteq> Fin 0"
  shows "calculate_scores rnd ms =
           Inr (spec_stability rnd (vals (pings_of ms)) (vals (speeds_of ms)),
                rnd (spec_mean (vals (speeds_of ms))), rnd (spec_mean (vals (pings_of ms))))"
    and "all_measurements fm = ms \<Longrightarrow>
         score_server rnd (name, fm) =
           Inr (name,
                spec_weighted rnd (spec_stability rnd (vals (pings_of ms)) (vals (speeds_of ms)))
                  (rnd (spec_mean (vals (speeds_of ms)))) (rnd (spec_mean (vals (pings_of ms)))),
                spec_stability rnd (vals (pings_of ms)) (vals (speeds_of ms)),
                rnd (spec_mean (vals (speeds_of ms))), rnd (spec_mean (vals (pings_of ms))))"
proof -
  let ?st = "spec_stability rnd (vals (pings_of ms)) (vals (speeds_of ms))"
  note fin = in_range_finite [OF rg(1)] in_range_finite [OF rg(2)]
  note m = mean_in_range_finite [OF r rg(1) pings_of_nonempty [OF len]]
           mean_in_range_finite [OF r rg(2) speeds_of_nonempty [OF len]]
  show c: "calculate_scores rnd ms =
           Inr (?st, rnd (spec_mean (vals (speeds_of ms))), rnd (spec_mean (vals (pings_of ms))))"
    using mz cz by (simp add: calculate_scores_eq [OF r len fin sd m])
  have "rnd y = Fin y" if "?st = Fin y" for y
    using that unfolding spec_stability_def by (rule fquot_representable [OF r])
  then have w: "weighted_score rnd ?st sp pg = Inr (spec_weighted rnd ?st sp pg)" for sp pg
    by (rule weighted_score_spec)
  show "score_server rnd (name, fm) =
           Inr (name,
                spec_weighted rnd ?st
                  (rnd (spec_mean (vals (speeds_of ms)))) (rnd (spec_mean (vals (pings_of ms)))),
                ?st, rnd (spec_mean (vals (speeds_of ms))), rnd (spec_mean (vals (pings_of ms))))"
    if "all_measurements fm = ms"
    using that by (simp add: score_server_def c w)
qed

lemma nonneg_scores:
  assumes r: "rounding rnd" and len: "2 \<le> length (valid_measurements ms)"
      and rg: "list_all in_range (pings_of ms)" "list_all in_range (speeds_of ms)"
      and nn: "\<forall>v\<in>set (pings_of ms). py_le (Fin 0) v" "\<forall>v\<in>set (speeds_of ms). py_le (Fin 0) v"
      and mz: "rnd (spec_mean (vals (speeds_of ms))) \<noteq> Fin 0"
  shows "\<exists>w. 1 / 2 ^ 1026 \<le> w \<and> w \<le> 1
           \<and> (\<forall>name fm. all_measurements fm = ms \<longrightarrow>
                 (\<exists>st sp pg. score_server rnd (name, fm) = Inr (name, Fin w, st, sp, pg)))"
proof -
  let ?P = "vals (pings_of ms)" and ?S = "vals (speeds_of ms)"
  have lenP: "2 \<le> length ?P" and lenS: "2 \<le> length ?S" using len by simp_all
  have lenP': "2 \<le> length (pings_of ms)" and lenS': "2 \<le> length (speeds_of ms)"
    using len by simp_all
  note vP = vals_nonneg [OF rg(1) nn(1)] and vS = vals_nonneg [OF rg(2) nn(2)]
  note sdP = stdev_nonneg_finite [OF r lenP' rg(1) nn(1)]
   and sdS = stdev_nonneg_finite [OF r lenS' rg(2) nn(2)]
  \<comment> \<open>the means\<close>
  from mean_in_range_finite [OF r rg(1) pings_of_nonempty [OF len]]
  obtain mp where mp: "rnd (spec_mean ?P) = Fin mp" by (auto simp: is_finite_conv)
  from mean_in_range_finite [OF r rg(2) speeds_of_nonempty [OF len]]
  obtain m where m: "rnd (spec_mean ?S) = Fin m" by (auto simp: is_finite_conv)
  have "0 \<le> spec_mean ?P" using vP by (intro spec_mean_nonneg) simp
  from rnd_nonneg [OF r this] mp have mp0: "0 \<le> mp" by simp
  have "0 \<le> spec_mean ?S" using vS by (intro spec_mean_nonneg) simp
  from rnd_nonneg [OF r this] m have "0 \<le> m" by simp
  with mz m have m0: "0 < m" by simp
  have mpM: "mp \<le> max_float" using rnd_max [OF r mp] by linarith
  have mM: "m \<le> max_float" using rnd_max [OF r m] by linarith
  \<comment> \<open>the stability score\<close>
  from ping_stability_bounds [OF r lenP sdP] obtain a where
    a: "spec_ping_stability rnd ?P = Fin a" "1 / 2 ^ 1024 \<le> a" "a \<le> 1" by blast
  from speed_stability_bounds [OF r lenS sdS m m0] obtain b where
    cz: "fadd rnd (fquot rnd (rnd (spec_stdev ?S)) (rnd (spec_mean ?S))) (Fin 1) \<noteq> Fin 0"
    and b: "spec_speed_stability rnd ?S = Fin b" "0 \<le> b" "b \<le> 1" by blast
  from stability_bounds [OF r a b] obtain st where
    st: "spec_stability rnd ?P ?S = Fin st" "1 / 2 ^ 1025 \<le> st" "st \<le> 1" by blast
  \<comment> \<open>the weighted score\<close>
  from weighted_bounds [OF r st(2,3) less_imp_le [OF m0] mM mp0 mpM] obtain w where
    w: "spec_weighted rnd (Fin st) (Fin m) (Fin mp) = Fin w" "1 / 2 ^ 1026 \<le> w" "w \<le> 1"
    by blast
  have "\<exists>st sp pg. score_server rnd (name, fm) = Inr (name, Fin w, st, sp, pg)"
    if "all_measurements fm = ms" for name fm
    using score_server_formula(2) [OF r len rg sdP sdS mz cz that, of name]
    by (simp add: st(1) m mp w(1))
  with w(2,3) show ?thesis by blast
qed

lemma weighted_score_degenerate:
  assumes "rounding rnd"
  shows "weighted_score rnd (Fin 0) (Fin 0) PInf = Inr (Fin 0)"
  using assms
  by (simp add: weighted_score_def py_min_def py_max_def fsub_def inf_times_def)

lemma score_server_degenerate:
  assumes "rounding rnd" "length (valid_measurements (all_measurements fm)) < 2"
  shows "score_server rnd (name, fm) = Inr (name, Fin 0, Fin 0, Fin 0, PInf)"
  using assms(2)
  by (simp add: score_server_def calculate_scores_def weighted_score_degenerate [OF assms(1)])

lemma zero_speed_fault:
  assumes r: "rounding rnd" and len: "2 \<le> length (valid_measurements ms)"
      and z: "\<forall>s\<in>set (speeds_of ms). s = Fin 0"
      and fin: "list_all is_finite (pings_of ms)"
      and sd: "is_finite (rnd (spec_stdev (vals (pings_of ms))))"
  shows "ping_stability rnd (pings_of ms) = Inr (spec_ping_stability rnd (vals (pings_of ms)))"
    and "coefficient_of_variation rnd (speeds_of ms) = Inl ZeroDivisionError"
    and "calculate_scores rnd ms = Inl ZeroDivisionError"
proof -
  have lenP: "2 \<le> length (pings_of ms)" and lenS: "2 \<le> length (speeds_of ms)"
    using len by simp_all
  have ne: "speeds_of ms \<noteq> []" using len by (rule speeds_of_nonempty)
  have finS: "list_all is_finite (speeds_of ms)" using z by (auto simp: list_all_iff)
  have v: "\<forall>x\<in>set (vals (speeds_of ms)). x = 0" using z by (auto simp: vals_def)
  have ne': "vals (speeds_of ms) \<noteq> []" using ne by (simp add: vals_def)
  have m0: "spec_mean (vals (speeds_of ms)) = 0" using v ne' by (rule spec_mean_const)
  have s0: "spec_stdev (vals (speeds_of ms)) = 0" using v ne' by (rule spec_stdev_const)
  show p: "ping_stability rnd (pings_of ms)
             = Inr (spec_ping_stability rnd (vals (pings_of ms)))"
    using r lenP fin sd by (rule ping_stability_eq)
  have "stdev rnd (speeds_of ms) = Inr (Fin 0)"
    using r by (simp add: stdev_finite_data [OF lenS finS] s0)
  moreover have "mean rnd (speeds_of ms) = Inr (Fin 0)"
    using r by (simp add: mean_finite_data [OF ne finS] m0)
  ultimately show cv: "coefficient_of_variation rnd (speeds_of ms) = Inl ZeroDivisionError"
    by (simp add: coefficient_of_variation_def)
  show "calculate_scores rnd ms = Inl ZeroDivisionError"
    using len by (simp add: calculate_scores_def p speed_stability_def cv)
qed

lemma build_rankings_append:
  "build_rankings rnd (pre @ rest) =
     bind_res (build_rankings rnd pre) (\<lambda>a.
     bind_res (build_rankings rnd rest) (\<lambda>b. Inr (a @ b)))"
proof (induction pre)
  case Nil
  show ?case by (cases "build_rankings rnd rest") simp_all
next
  case (Cons item pre)
  show ?case
  proof (cases "score_server rnd item")
    case (Inl e)
    then show ?thesis by simp
  next
    case (Inr x)
    show ?thesis
      by (cases "build_rankings rnd pre"; cases "build_rankings rnd rest")
         (simp_all add: Inr Cons.IH)
  qed
qed

lemma rank_nodes_first_fault:
  assumes "build_rankings rnd pre = Inr rs" "score_server rnd item = Inl e"
  shows "rank_nodes rnd (pre @ item # rest) = Inl e"
  using assms by (simp add: rank_nodes_def build_rankings_append)

subsection \<open>Concrete evaluation\<close>

lemma exact_rnd_small: "\<bar>x\<bar> \<le> 9007199254740992 \<Longrightarrow> exact_rnd x = Fin x"
proof (rule exact_rnd_in_range)
  assume "\<bar>x\<bar> \<le> 9007199254740992"
  moreover have "(9007199254740992::real) = 2 ^ 53" by simp
  moreover have "(2::real) ^ 53 \<le> 2 powi 1023" by (simp add: power_increasing)
  ultimately show "\<bar>x\<bar> \<le> max_float" using pow2_le_max_float [of 1023] by linarith
qed

lemma sqrt_2500: "sqrt 2500 = 50"
  by (rule real_sqrt_unique) simp_all

lemma score_server_const_100:
  "score_server exact_rnd (n, [(f, [Valid (Fin 0) (Fin 100), Valid (Fin 0) (Fin 100)])])
     = Inr (n, Fin 1, Fin 1, Fin 100, Fin 0)"
  by (simp add: score_server_def all_measurements_def weighted_score_def
      calculate_scores_def speeds_of_def pings_of_def
      ping_stability_def speed_stability_def coefficient_of_variation_def stdev_def mean_def
      ss_def Let_def py_min_def py_max_def fsub_def exact_rnd_small)

section \<open>The claims\<close>

text \<open>
  Claim C1, amended. For a measurement list with at least two valid pairs, all of them
  finite doubles, whose standard deviations do not overflow, whose mean of the speeds
  rounds to a float other than 0 and whose float quotient of standard deviation and mean
  of the speeds, plus 1, is not 0, \<^verbatim>\<open>calculate_scores\<close> returns the average of
  \<open>1 / (ping_stdev + 1)\<close> and \<open>1 / (speed_stdev / speed_mean + 1)\<close>, the mean of the speeds and
  the mean of the pings, where mean and standard deviation are the correctly rounded
  arithmetic mean and sample standard deviation on \<open>n - 1\<close> and every operation is a float
  operation; and every ranking \<^verbatim>\<open>rank_nodes\<close> returns holds, for a server with these
  measurements, the weighted score
  \<open>(4 * stability + 3 * min (avg_speed / 100) 1 + 1 * max (1 - avg_ping / 1000) 0) / 8\<close>.
\<close>

theorem calculate_scores_formula:
  assumes "rounding rnd"
      and "2 \<le> length (valid_measurements ms)"
      and "list_all in_range (pings_of ms)" "list_all in_range (speeds_of ms)"
      and "is_finite (rnd (spec_stdev (vals (pings_of ms))))"
          "is_finite (rnd (spec_stdev (vals (speeds_of ms))))"
      and "rnd (spec_mean (vals (speeds_of ms))) \<noteq> Fin 0"
      and "fadd rnd (fquot rnd (rnd (spec_stdev (vals (speeds_of ms))))
                               (rnd (spec_mean (vals (speeds_of ms))))) (Fin 1) \<noteq> Fin 0"
  shows "calculate_scores rnd ms =
           Inr (spec_stability rnd (vals (pings_of ms)) (vals (speeds_of ms)),
                rnd (spec_mean (vals (speeds_of ms))), rnd (spec_mean (vals (pings_of ms))))
       \<and> (\<forall>data out name fm.
             rank_nodes rnd data = Inr out \<and> (name, fm) \<in> set data \<and> all_measurements fm = ms
             \<longrightarrow>
             (name,
              spec_weighted rnd (spec_stability rnd (vals (pings_of ms)) (vals (speeds_of ms)))
                (rnd (spec_mean (vals (speeds_of ms)))) (rnd (spec_mean (vals (pings_of ms)))),
              spec_stability rnd (vals (pings_of ms)) (vals (speeds_of ms)),
              rnd (spec_mean (vals (speeds_of ms))), rnd (spec_mean (vals (pings_of ms))))
             \<in> set out)"
proof -
  note f = score_server_formula [OF assms]
  have "(name,
          spec_weighted rnd (spec_stability rnd (vals (pings_of ms)) (vals (speeds_of ms)))
            (rnd (spec_mean (vals (speeds_of ms)))) (rnd (spec_mean (vals (pings_of ms)))),
          spec_stability rnd (vals (pings_of ms)) (vals (speeds_of ms)),
          rnd (spec_mean (vals (speeds_of ms))), rnd (spec_mean (vals (pings_of ms))))
        \<in> set out"
    if "rank_nodes rnd data = Inr out" "(name, fm) \<in> set data" "all_measurements fm = ms"
    for data out name fm
    using rank_nodes_member [OF assms(1) that(1,2)] f(2) [OF that(3), of name] by auto
  with f(1) show ?thesis by blast
qed

theorem calculate_scores_formula_witness:
  "rounding exact_rnd
   \<and> valid_measurements
       [Valid (Fin 249) (Fin 0), Valid (Fin 250) (Fin 50), ErrorMarker, Valid (Fin 251) (Fin 100)]
       = [(Fin 249, Fin 0), (Fin 250, Fin 50), (Fin 251, Fin 100)]
   \<and> exact_rnd (spec_stdev [249, 250, 251]) = Fin 1
   \<and> exact_rnd (spec_stdev [0, 50, 100]) = Fin 50
   \<and> exact_rnd (spec_mean [0, 50, 100]) = Fin 50
   \<and> calculate_scores exact_rnd
       [Valid (Fin 249) (Fin 0), Valid (Fin 250) (Fin 50), ErrorMarker, Valid (Fin 251) (Fin 100)]
       = Inr (Fin (1 / 2), Fin 50, Fin 250)
   \<and> rank_nodes exact_rnd
       [(''A'', [(''a.csv'', [Valid (Fin 249) (Fin 0), Valid (Fin 250) (Fin 50)]),
                 (''b.csv'', [ErrorMarker, Valid (Fin 251) (Fin 100)])])]
       = Inr [(''A'', Fin (17 / 32), Fin (1 / 2), Fin 50, Fin 250)]"
proof -
  let ?ms = "[Valid (Fin 249) (Fin 0), Valid (Fin 250) (Fin 50), ErrorMarker,
              Valid (Fin 251) (Fin 100)]"
  let ?fm = "[(''a.csv'', [Valid (Fin 249) (Fin 0), Valid (Fin 250) (Fin 50)]),
              (''b.csv'', [ErrorMarker, Valid (Fin 251) (Fin 100)])]"
  have v: "valid_measurements ?ms = [(Fin 249, Fin 0), (Fin 250, Fin 50), (Fin 251, Fin 100)]"
    by simp
  have l: "vals (pings_of ?ms) = [249, 250, 251]" "vals (speeds_of ?ms) = [0, 50, 100]"
    by (simp_all add: vals_def pings_of_def speeds_of_def)
  have m: "spec_mean [0, 50, 100] = 50" "spec_mean [249, 250, 251] = 250"
    by (simp_all add: spec_mean_def)
  have sd: "spec_stdev [0, 50, 100] = 50" "spec_stdev [249, 250, 251] = 1"
    by (simp_all add: spec_stdev_def m sqrt_2500)
  have e: "exact_rnd (spec_stdev [249, 250, 251]) = Fin 1"
    "exact_rnd (spec_stdev [0, 50, 100]) = Fin 50" "exact_rnd (spec_mean [0, 50, 100]) = Fin 50"
    "exact_rnd (spec_mean [249, 250, 251]) = Fin 250"
    by (simp_all add: m sd exact_rnd_small)
  have st: "spec_stability exact_rnd [249, 250, 251] [0, 50, 100] = Fin (1 / 2)"
    by (simp add: spec_stability_def spec_ping_stability_def spec_speed_stability_def e
        fquot_def exact_rnd_small)
  have w: "spec_weighted exact_rnd (Fin (1 / 2)) (Fin 50) (Fin 250) = Fin (17 / 32)"
    by (simp add: spec_weighted_def fquot_def exact_rnd_small py_min_def py_max_def fsub_def)
  have h: "2 \<le> length (valid_measurements ?ms)"
    "list_all in_range (pings_of ?ms)" "list_all in_range (speeds_of ?ms)"
    "is_finite (exact_rnd (spec_stdev (vals (pings_of ?ms))))"
    "is_finite (exact_rnd (spec_stdev (vals (speeds_of ?ms))))"
    "exact_rnd (spec_mean (vals (speeds_of ?ms))) \<noteq> Fin 0"
    "fadd exact_rnd (fquot exact_rnd (exact_rnd (spec_stdev (vals (speeds_of ?ms))))
        (exact_rnd (spec_mean (vals (speeds_of ?ms))))) (Fin 1) \<noteq> Fin 0"
    unfolding l e
    by (simp_all add: pings_of_def speeds_of_def max_float_def fquot_def exact_rnd_small)
  note t = calculate_scores_formula [OF rounding_exact_rnd h]
  from t have c: "calculate_scores exact_rnd ?ms = Inr (Fin (1 / 2), Fin 50, Fin 250)"
    unfolding l e st by (rule conjunct1)
  have am: "all_measurements ?fm = ?ms" by (simp add: all_measurements_def)
  have "score_server exact_rnd (''A'', ?fm) = Inr (''A'', Fin (17 / 32), Fin (1 / 2), Fin 50, Fin 250)"
    by (simp add: score_server_def am c weighted_score_def exact_rnd_small py_min_def
        py_max_def fsub_def)
  then have r: "rank_nodes exact_rnd [(''A'', ?fm)]
      = Inr [(''A'', Fin (17 / 32), Fin (1 / 2), Fin 50, Fin 250)]"
    by (simp add: rank_nodes_def sorted_reverse_def sort_lt_def)
  from rounding_exact_rnd v e(1,2,3) c r show ?thesis by (intro conjI)
qed

text \<open>
  Claim C1 as stated fails: the speeds -2, -1, 0 have mean -1 and standard deviation 1,
  so the divisor of line 46 is 0 and nothing is returned.
\<close>

theorem calculate_scores_formula_counterexample:
  "valid_measurements
     [Valid (Fin 10) (Fin (- 2)), Valid (Fin 10) (Fin (- 1)), Valid (Fin 10) (Fin 0)]
     = [(Fin 10, Fin (- 2)), (Fin 10, Fin (- 1)), (Fin 10, Fin 0)]
   \<and> mean exact_rnd [Fin (- 2), Fin (- 1), Fin 0] = Inr (Fin (- 1))
   \<and> calculate_scores exact_rnd
       [Valid (Fin 10) (Fin (- 2)), Valid (Fin 10) (Fin (- 1)), Valid (Fin 10) (Fin 0)]
       = Inl ZeroDivisionError"
  by (simp add: calculate_scores_def speeds_of_def pings_of_def
      ping_stability_def speed_stability_def coefficient_of_variation_def stdev_def mean_def
      ss_def Let_def exact_rnd_small)

text \<open>
  Claim C4. A measurement list with fewer than two valid pairs, and in particular a list of
  error markers only, makes \<^verbatim>\<open>calculate_scores\<close> return stability score 0, average
  speed 0 and average ping plus infinity.
\<close>

theorem calculate_scores_degenerate:
  assumes "length (valid_measurements ms) < 2" and "\<forall>m\<in>set es. m = ErrorMarker"
  shows "calculate_scores rnd ms = Inr (Fin 0, Fin 0, PInf)
       \<and> calculate_scores rnd es = Inr (Fin 0, Fin 0, PInf)"
  using assms valid_measurements_all_error [of es] by (simp add: calculate_scores_def)

theorem calculate_scores_degenerate_witness:
  "length (valid_measurements [ErrorMarker, Valid (Fin 10) (Fin 50)]) < 2
   \<and> valid_measurements [ErrorMarker, ErrorMarker] = []
   \<and> calculate_scores exact_rnd [ErrorMarker, Valid (Fin 10) (Fin 50)] = Inr (Fin 0, Fin 0, PInf)
   \<and> calculate_scores exact_rnd [ErrorMarker, ErrorMarker] = Inr (Fin 0, Fin 0, PInf)"
  using calculate_scores_degenerate
          [of "[ErrorMarker, Valid (Fin 10) (Fin 50)]" "[ErrorMarker, ErrorMarker]" exact_rnd]
  by simp

text \<open>
  Claim C8. With at least two valid samples whose ping values are all the same finite
  number, the ping stability term of line 45 is exactly 1.
\<close>

theorem ping_stability_identical:
  assumes "rounding rnd"
      and "2 \<le> length (valid_measurements ms)" and "\<forall>p\<in>set (pings_of ms). p = Fin c"
  shows "ping_stability rnd (pings_of ms) = Inr (Fin 1)"
proof -
  have len: "2 \<le> length (pings_of ms)" using assms(2) by simp
  have ne: "vals (pings_of ms) \<noteq> []" using pings_of_nonempty [OF assms(2)] by (simp add: vals_def)
  have fin: "list_all is_finite (pings_of ms)" using assms(3) by (auto simp: list_all_iff)
  have "\<forall>x\<in>set (vals (pings_of ms)). x = c" using assms(3) by (auto simp: vals_def)
  then have s0: "spec_stdev (vals (pings_of ms)) = 0" using ne by (rule spec_stdev_const)
  have "is_finite (rnd (spec_stdev (vals (pings_of ms))))" using assms(1) by (simp add: s0)
  from ping_stability_eq [OF assms(1) len fin this] show ?thesis
    using assms(1) by (simp add: spec_ping_stability_def s0 fquot_def)
qed

theorem ping_stability_identical_witness:
  "rounding exact_rnd
   \<and> 2 \<le> length (valid_measurements
                [Valid (Fin 20) (Fin 50), ErrorMarker, Valid (Fin 20) (Fin 60)])
   \<and> pings_of [Valid (Fin 20) (Fin 50), ErrorMarker, Valid (Fin 20) (Fin 60)] = [Fin 20, Fin 20]
   \<and> ping_stability exact_rnd
       (pings_of [Valid (Fin 20) (Fin 50), ErrorMarker, Valid (Fin 20) (Fin 60)]) = Inr (Fin 1)"
  using ping_stability_identical
          [OF rounding_exact_rnd,
           of "[Valid (Fin 20) (Fin 50), ErrorMarker, Valid (Fin 20) (Fin 60)]" 20]
    rounding_exact_rnd
  by (simp add: pings_of_def)

text \<open>
  Claim C3, amended. With at least two valid samples whose speed values are all 0 and
  whose ping values are finite with a standard deviation that does not overflow, the ping
  stability term is computed, the quotient of standard deviation and mean of the speeds
  raises \<^verbatim>\<open>ZeroDivisionError\<close>, and \<^verbatim>\<open>calculate_scores\<close> ends with that error. Nothing
  handles it: \<^verbatim>\<open>rank_nodes\<close> fails on every corpus that holds such a server, and with
  \<^verbatim>\<open>ZeroDivisionError\<close> when the servers before it are scored.
\<close>

theorem calculate_scores_zero_speed:
  assumes "rounding rnd"
      and "2 \<le> length (valid_measurements ms)" and "\<forall>s\<in>set (speeds_of ms). s = Fin 0"
      and "list_all is_finite (pings_of ms)"
      and "is_finite (rnd (spec_stdev (vals (pings_of ms))))"
  shows "calculate_scores rnd ms = Inl ZeroDivisionError
       \<and> (\<exists>v. ping_stability rnd (pings_of ms) = Inr v)
       \<and> coefficient_of_variation rnd (speeds_of ms) = Inl ZeroDivisionError
       \<and> (\<forall>data name fm. (name, fm) \<in> set data \<and> all_measurements fm = ms
             \<longrightarrow> (\<exists>e. rank_nodes rnd data = Inl e))
       \<and> (\<forall>pre rs name fm rest. build_rankings rnd pre = Inr rs \<and> all_measurements fm = ms
             \<longrightarrow> rank_nodes rnd (pre @ (name, fm) # rest) = Inl ZeroDivisionError)"
proof -
  note z = zero_speed_fault [OF assms]
  have s: "score_server rnd (name, fm) = Inl ZeroDivisionError"
    if "all_measurements fm = ms" for name fm
    using that z(3) by (simp add: score_server_def)
  have r: "\<exists>e. rank_nodes rnd data = Inl e"
    if "(name, fm) \<in> set data" "all_measurements fm = ms" for data name fm
  proof -
    from build_rankings_fails [OF that(1) s [OF that(2)]]
    obtain e' where "build_rankings rnd data = Inl e'" by blast
    then have "rank_nodes rnd data = Inl e'" by (simp add: rank_nodes_def)
    then show ?thesis by blast
  qed
  have f: "rank_nodes rnd (pre @ (name, fm) # rest) = Inl ZeroDivisionError"
    if "build_rankings rnd pre = Inr rs" "all_measurements fm = ms" for pre rs name fm rest
    using that(1) s [OF that(2)] by (rule rank_nodes_first_fault)
  from z r f show ?thesis by blast
qed

theorem calculate_scores_zero_speed_witness:
  "rounding exact_rnd
   \<and> valid_measurements [Valid (Fin 10) (Fin 0), Valid (Fin 20) (Fin 0)]
       = [(Fin 10, Fin 0), (Fin 20, Fin 0)]
   \<and> is_finite (exact_rnd (spec_stdev [10, 20]))
   \<and> calculate_scores exact_rnd [Valid (Fin 10) (Fin 0), Valid (Fin 20) (Fin 0)]
       = Inl ZeroDivisionError
   \<and> rank_nodes exact_rnd
       [(''B'', [(''a.csv'', [ErrorMarker])]),
        (''A'', [(''a.csv'', [Valid (Fin 10) (Fin 0), Valid (Fin 20) (Fin 0)])])]
       = Inl ZeroDivisionError"
proof -
  let ?ms = "[Valid (Fin 10) (Fin 0), Valid (Fin 20) (Fin 0)]"
  have v: "valid_measurements ?ms = [(Fin 10, Fin 0), (Fin 20, Fin 0)]" by simp
  have "spec_stdev [10, 20] \<le> 20" by (rule spec_stdev_bound) simp_all
  moreover have "0 \<le> spec_stdev [10, 20]" by (rule spec_stdev_nonneg) simp
  ultimately have "\<bar>spec_stdev [10, 20]\<bar> < overflow_threshold"
    using max_float_less_threshold pow2_le_max_float [of 5] by simp
  with rounding_exact_rnd have sd: "is_finite (exact_rnd (spec_stdev [10, 20]))"
    by (rule rnd_finite)
  have h: "2 \<le> length (valid_measurements ?ms)" "\<forall>s\<in>set (speeds_of ?ms). s = Fin 0"
    "list_all is_finite (pings_of ?ms)"
    "is_finite (exact_rnd (spec_stdev (vals (pings_of ?ms))))"
    using sd by (simp_all add: speeds_of_def pings_of_def vals_def)
  note t = calculate_scores_zero_speed [OF rounding_exact_rnd h]
  from t have c: "calculate_scores exact_rnd ?ms = Inl ZeroDivisionError" by (rule conjunct1)
  have b: "build_rankings exact_rnd [(''B'', [(''a.csv'', [ErrorMarker])])]
      = Inr [(''B'', Fin 0, Fin 0, Fin 0, PInf)]"
    by (simp add: score_server_degenerate [OF rounding_exact_rnd] all_measurements_def)
  have am: "all_measurements [(''a.csv'', ?ms)] = ?ms" by (simp add: all_measurements_def)
  from t b am have "rank_nodes exact_rnd
      ([(''B'', [(''a.csv'', [ErrorMarker])])] @ (''A'', [(''a.csv'', ?ms)]) # [])
      = Inl ZeroDivisionError" by blast
  then have r: "rank_nodes exact_rnd
       [(''B'', [(''a.csv'', [ErrorMarker])]), (''A'', [(''a.csv'', ?ms)])]
       = Inl ZeroDivisionError" by simp
  from rounding_exact_rnd v sd c r show ?thesis by (intro conjI)
qed

text \<open>
  Claim C3 as stated fails: with the ping values \<^verbatim>\<open>inf\<close> and the speed values 0 the
  standard deviation of line 45 raises \<^verbatim>\<open>AttributeError\<close> before the quotient of line 46
  is evaluated.
\<close>

theorem calculate_scores_zero_speed_counterexample:
  "read_csv_files (float_literal exact_rnd)
     [(''a.csv'', [[''server'', ''ping'', ''speed''], [''A'', ''inf'', ''0''],
                   [''A'', ''inf'', ''0'']])]
     = Inr ([(''A'', [(''a.csv'', [Valid PInf (Fin 0), Valid PInf (Fin 0)])])], [''a.csv''])
   \<and> speeds_of [Valid PInf (Fin 0), Valid PInf (Fin 0)] = [Fin 0, Fin 0]
   \<and> calculate_scores exact_rnd [Valid PInf (Fin 0), Valid PInf (Fin 0)] = Inl AttributeError
   \<and> rank_nodes exact_rnd [(''A'', [(''a.csv'', [Valid PInf (Fin 0), Valid PInf (Fin 0)])])]
       = Inl AttributeError"
proof -
  have "read_csv_files (float_literal rnd)
     [(''a.csv'', [[''server'', ''ping'', ''speed''], [''A'', ''inf'', ''0''],
                   [''A'', ''inf'', ''0'']])]
     = Inr ([(''A'', [(''a.csv'', [Valid PInf (rnd 0), Valid PInf (rnd 0)])])], [''a.csv''])"
    for rnd :: "real \<Rightarrow> pyfloat"
    by code_simp simp
  from this [of exact_rnd] have r: "read_csv_files (float_literal exact_rnd)
     [(''a.csv'', [[''server'', ''ping'', ''speed''], [''A'', ''inf'', ''0''],
                   [''A'', ''inf'', ''0'']])]
     = Inr ([(''A'', [(''a.csv'', [Valid PInf (Fin 0), Valid PInf (Fin 0)])])], [''a.csv''])"
    by (simp add: exact_rnd_small)
  have c: "calculate_scores exact_rnd [Valid PInf (Fin 0), Valid PInf (Fin 0)]
      = Inl AttributeError"
    by (simp add: calculate_scores_def pings_of_def ping_stability_def stdev_def)
  have k: "rank_nodes exact_rnd [(''A'', [(''a.csv'', [Valid PInf (Fin 0), Valid PInf (Fin 0)])])]
       = Inl AttributeError"
    by (simp add: rank_nodes_def score_server_def all_measurements_def c)
  have s: "speeds_of [Valid PInf (Fin 0), Valid PInf (Fin 0)] = [Fin 0, Fin 0]"
    by (simp add: speeds_of_def)
  from r s c k show ?thesis by (intro conjI)
qed

text \<open>
  Claim C5, amended. For a server with at least two valid samples, all of them finite
  doubles that are not negative, and a mean of the speeds that rounds to a float other
  than 0, the weighted score of its ranking entry lies between 0 and 1.
\<close>

theorem weighted_score_bounds:
  assumes "rounding rnd"
      and "2 \<le> length (valid_measurements ms)"
      and "list_all in_range (pings_of ms)" "list_all in_range (speeds_of ms)"
      and "\<forall>v\<in>set (pings_of ms). py_le (Fin 0) v" "\<forall>v\<in>set (speeds_of ms). py_le (Fin 0) v"
      and "rnd (spec_mean (vals (speeds_of ms))) \<noteq> Fin 0"
  shows "\<exists>w. 0 \<le> w \<and> w \<le> 1
           \<and> (\<forall>name fm. all_measurements fm = ms \<longrightarrow>
                 (\<exists>r. score_server rnd (name, fm) = Inr r \<and> weighted_of r = Fin w))
           \<and> (\<forall>data out name fm.
                 rank_nodes rnd data = Inr out \<and> (name, fm) \<in> set data \<and> all_measurements fm = ms
                 \<longrightarrow> (\<exists>r\<in>set out. server_of r = name \<and> weighted_of r = Fin w))"
proof -
  from nonneg_scores [OF assms] obtain w where
    b: "1 / 2 ^ 1026 \<le> w" "w \<le> 1"
    and s: "\<And>name fm. all_measurements fm = ms \<Longrightarrow>
              \<exists>st sp pg. score_server rnd (name, fm) = Inr (name, Fin w, st, sp, pg)"
    by blast
  have "(0::real) \<le> 1 / 2 ^ 1026" by simp
  with b(1) have w0: "0 \<le> w" by linarith
  have s': "\<exists>r. score_server rnd (name, fm) = Inr r \<and> weighted_of r = Fin w"
    if "all_measurements fm = ms" for name fm
    using s [OF that, of name] by (auto simp: weighted_of_def)
  have r: "\<exists>r\<in>set out. server_of r = name \<and> weighted_of r = Fin w"
    if "rank_nodes rnd data = Inr out" "(name, fm) \<in> set data" "all_measurements fm = ms"
    for data out name fm
  proof -
    from rank_nodes_member [OF assms(1) that(1,2)] obtain r where
      r: "r \<in> set out" "score_server rnd (name, fm) = Inr r" by blast
    from s [OF that(3), of name] obtain st sp pg where
      "score_server rnd (name, fm) = Inr (name, Fin w, st, sp, pg)" by blast
    with r(2) have "r = (name, Fin w, st, sp, pg)" by simp
    then have "server_of r = name \<and> weighted_of r = Fin w"
      by (simp add: server_of_def weighted_of_def)
    with r(1) show ?thesis by blast
  qed
  from w0 b(2) s' r show ?thesis by blast
qed

theorem weighted_score_bounds_witness:
  "rounding exact_rnd
   \<and> valid_measurements
       [Valid (Fin 249) (Fin 0), Valid (Fin 250) (Fin 50), ErrorMarker, Valid (Fin 251) (Fin 100)]
       = [(Fin 249, Fin 0), (Fin 250, Fin 50), (Fin 251, Fin 100)]
   \<and> exact_rnd (spec_mean [0, 50, 100]) = Fin 50
   \<and> (\<exists>w r. 0 \<le> w \<and> w \<le> 1
         \<and> score_server exact_rnd
             (''A'', [(''a.csv'', [Valid (Fin 249) (Fin 0), Valid (Fin 250) (Fin 50)]),
                      (''b.csv'', [ErrorMarker, Valid (Fin 251) (Fin 100)])]) = Inr r
         \<and> weighted_of r = Fin w)"
proof -
  let ?ms = "[Valid (Fin 249) (Fin 0), Valid (Fin 250) (Fin 50), ErrorMarker,
              Valid (Fin 251) (Fin 100)]"
  let ?fm = "[(''a.csv'', [Valid (Fin 249) (Fin 0), Valid (Fin 250) (Fin 50)]),
              (''b.csv'', [ErrorMarker, Valid (Fin 251) (Fin 100)])]"
  have v: "valid_measurements ?ms = [(Fin 249, Fin 0), (Fin 250, Fin 50), (Fin 251, Fin 100)]"
    by simp
  have m: "exact_rnd (spec_mean [0, 50, 100]) = Fin 50"
    by (simp add: spec_mean_def exact_rnd_small)
  have h: "2 \<le> length (valid_measurements ?ms)"
    "list_all in_range (pings_of ?ms)" "list_all in_range (speeds_of ?ms)"
    "\<forall>v\<in>set (pings_of ?ms). py_le (Fin 0) v" "\<forall>v\<in>set (speeds_of ?ms). py_le (Fin 0) v"
    "exact_rnd (spec_mean (vals (speeds_of ?ms))) \<noteq> Fin 0"
    using m by (simp_all add: pings_of_def speeds_of_def vals_def max_float_def)
  have am: "all_measurements ?fm = ?ms" by (simp add: all_measurements_def)
  from weighted_score_bounds [OF rounding_exact_rnd h] am obtain w where
    "0 \<le> w" "w \<le> 1" "\<exists>r. score_server exact_rnd (''A'', ?fm) = Inr r \<and> weighted_of r = Fin w"
    by blast
  then have "\<exists>w r. 0 \<le> w \<and> w \<le> 1 \<and> score_server exact_rnd (''A'', ?fm) = Inr r
      \<and> weighted_of r = Fin w" by blast
  with rounding_exact_rnd v m show ?thesis by (intro conjI)
qed

text \<open>
  Claim C5 as stated fails: two samples with ping -3000 and speed 100 give the weighted
  score 11/8.
\<close>

theorem weighted_score_bounds_counterexample:
  "valid_measurements [Valid (Fin (- 3000)) (Fin 100), Valid (Fin (- 3000)) (Fin 100)]
     = [(Fin (- 3000), Fin 100), (Fin (- 3000), Fin 100)]
   \<and> mean exact_rnd [Fin 100, Fin 100] = Inr (Fin 100)
   \<and> rank_nodes exact_rnd
       [(''A'', [(''a.csv'', [Valid (Fin (- 3000)) (Fin 100), Valid (Fin (- 3000)) (Fin 100)])])]
       = Inr [(''A'', Fin (11 / 8), Fin 1, Fin 100, Fin (- 3000))]
   \<and> \<not> py_le (Fin (11 / 8)) (Fin 1)"
  by (simp add: rank_nodes_def score_server_def all_measurements_def weighted_score_def
      calculate_scores_def speeds_of_def pings_of_def
      ping_stability_def speed_stability_def coefficient_of_variation_def stdev_def mean_def
      ss_def Let_def py_min_def py_max_def fsub_def sorted_reverse_def sort_lt_def
      exact_rnd_small)

text \<open>
  Claim C6. Whenever \<^verbatim>\<open>rank_nodes\<close> returns, its output is a rearrangement of the
  rankings built in the order of the corpus, with weighted scores in descending order, and
  the entries of equal weighted score keep the order they have in the corpus: the output
  is a function of the corpus alone.
\<close>

theorem rank_nodes_sorted_stable:
  assumes "rounding rnd" and "rank_nodes rnd data = Inr out"
  shows "\<exists>rankings. build_rankings rnd data = Inr rankings
           \<and> map server_of rankings = map fst data
           \<and> mset out = mset rankings
           \<and> sorted_wrt (\<lambda>a b. py_le (weighted_of b) (weighted_of a)) out
           \<and> (\<forall>k. filter (\<lambda>r. weighted_of r = k) out
                    = filter (\<lambda>r. weighted_of r = k) rankings)"
proof -
  from rank_nodes_Inr [OF assms(2)] obtain rs where
    rs: "build_rankings rnd data = Inr rs" and out: "out = sorted_reverse weighted_of rs"
    by blast
  have fin: "\<forall>r\<in>set rs. weighted_of r \<noteq> NaN"
    using build_rankings_not_NaN [OF assms(1) rs] by blast
  note p = sorted_reverse_props [OF fin]
  have "map server_of rs = map fst data" using assms(1) rs by (rule build_rankings_names)
  moreover have "mset out = mset rs" unfolding out by (rule p(1))
  moreover have "sorted_wrt (\<lambda>a b. py_le (weighted_of b) (weighted_of a)) out"
    unfolding out by (rule p(2))
  moreover have "\<forall>k. filter (\<lambda>r. weighted_of r = k) out = filter (\<lambda>r. weighted_of r = k) rs"
    unfolding out using p(3) by blast
  ultimately show ?thesis using rs by blast
qed

theorem rank_nodes_sorted_stable_witness:
  "rounding exact_rnd
   \<and> rank_nodes exact_rnd
       [(''C'', [(''a.csv'', [ErrorMarker])]),
        (''B'', [(''a.csv'', [Valid (Fin 0) (Fin 100), Valid (Fin 0) (Fin 100)])]),
        (''A'', [(''a.csv'', [Valid (Fin 5) (Fin 5)])])]
     = Inr [(''B'', Fin 1, Fin 1, Fin 100, Fin 0),
            (''C'', Fin 0, Fin 0, Fin 0, PInf),
            (''A'', Fin 0, Fin 0, Fin 0, PInf)]
   \<and> (\<exists>rankings.
         build_rankings exact_rnd
           [(''C'', [(''a.csv'', [ErrorMarker])]),
            (''B'', [(''a.csv'', [Valid (Fin 0) (Fin 100), Valid (Fin 0) (Fin 100)])]),
            (''A'', [(''a.csv'', [Valid (Fin 5) (Fin 5)])])] = Inr rankings
       \<and> map server_of rankings = [''C'', ''B'', ''A'']
       \<and> filter (\<lambda>r. weighted_of r = Fin 0)
            [(''B'', Fin 1, Fin 1, Fin 100, Fin 0),
             (''C'', Fin 0, Fin 0, Fin 0, PInf),
             (''A'', Fin 0, Fin 0, Fin 0, PInf)]
          = filter (\<lambda>r. weighted_of r = Fin 0) rankings)"
proof -
  let ?data = "[(''C'', [(''a.csv'', [ErrorMarker])]),
               (''B'', [(''a.csv'', [Valid (Fin 0) (Fin 100), Valid (Fin 0) (Fin 100)])]),
               (''A'', [(''a.csv'', [Valid (Fin 5) (Fin 5)])])]"
  let ?out = "[(''B'', Fin 1, Fin 1, Fin 100, Fin 0),
            (''C'', Fin 0, Fin 0, Fin 0, PInf),
            (''A'', Fin 0, Fin 0, Fin 0, PInf)]"
  have d: "score_server exact_rnd (''C'', [(''a.csv'', [ErrorMarker])])
             = Inr (''C'', Fin 0, Fin 0, Fin 0, PInf)"
    "score_server exact_rnd (''A'', [(''a.csv'', [Valid (Fin 5) (Fin 5)])])
             = Inr (''A'', Fin 0, Fin 0, Fin 0, PInf)"
    by (simp_all add: score_server_degenerate [OF rounding_exact_rnd] all_measurements_def)
  have r: "rank_nodes exact_rnd ?data = Inr ?out"
    by (simp add: rank_nodes_def d score_server_const_100 sorted_reverse_def sort_lt_def
        weighted_of_def)
  from rank_nodes_sorted_stable [OF rounding_exact_rnd r] obtain rankings where
    a: "build_rankings exact_rnd ?data = Inr rankings" "map server_of rankings = map fst ?data"
    and f: "\<forall>k. filter (\<lambda>r. weighted_of r = k) ?out = filter (\<lambda>r. weighted_of r = k) rankings"
    by blast
  from f have f0: "filter (\<lambda>r. weighted_of r = Fin 0) ?out
      = filter (\<lambda>r. weighted_of r = Fin 0) rankings" by (rule spec)
  from a(2) have n: "map server_of rankings = [''C'', ''B'', ''A'']" by simp
  from a(1) n f0 have "build_rankings exact_rnd ?data = Inr rankings
       \<and> map server_of rankings = [''C'', ''B'', ''A'']
       \<and> filter (\<lambda>r. weighted_of r = Fin 0) ?out
          = filter (\<lambda>r. weighted_of r = Fin 0) rankings" by (intro conjI)
  then have "\<exists>rankings. build_rankings exact_rnd ?data = Inr rankings
       \<and> map server_of rankings = [''C'', ''B'', ''A'']
       \<and> filter (\<lambda>r. weighted_of r = Fin 0) ?out
          = filter (\<lambda>r. weighted_of r = Fin 0) rankings" by (rule exI)
  with rounding_exact_rnd r show ?thesis by (intro conjI)
qed

text \<open>
  Claim C10, amended. A server with fewer than two valid samples has the weighted score 0;
  a server with at least two valid samples, all of them finite doubles that are not
  negative, and a mean of the speeds that rounds to a float other than 0 has a positive
  weighted score; so in every output of \<^verbatim>\<open>rank_nodes\<close> the entry of the first comes after
  the entry of the second.
\<close>

theorem degenerate_ranked_last:
  assumes r: "rounding rnd"
      and deg: "length (valid_measurements (all_measurements fm1)) < 2"
      and len: "2 \<le> length (valid_measurements (all_measurements fm2))"
      and rg: "list_all in_range (pings_of (all_measurements fm2))"
              "list_all in_range (speeds_of (all_measurements fm2))"
      and nonneg: "\<forall>v\<in>set (pings_of (all_measurements fm2)). py_le (Fin 0) v"
                  "\<forall>v\<in>set (speeds_of (all_measurements fm2)). py_le (Fin 0) v"
      and nz: "rnd (spec_mean (vals (speeds_of (all_measurements fm2)))) \<noteq> Fin 0"
  shows "score_server rnd (n1, fm1) = Inr (n1, Fin 0, Fin 0, Fin 0, PInf)
       \<and> (\<exists>r w. score_server rnd (n2, fm2) = Inr r \<and> weighted_of r = Fin w \<and> 0 < w)
       \<and> (\<forall>data out. rank_nodes rnd data = Inr out \<and> (n1, fm1) \<in> set data
               \<and> (n2, fm2) \<in> set data
             \<longrightarrow> (\<exists>i j. j < i \<and> i < length out \<and> score_server rnd (n1, fm1) = Inr (out ! i)
                        \<and> score_server rnd (n2, fm2) = Inr (out ! j)))
       \<and> (\<forall>data out i j. rank_nodes rnd data = Inr out \<and> i < length out \<and> j < length out
               \<and> score_server rnd (n1, fm1) = Inr (out ! i)
               \<and> score_server rnd (n2, fm2) = Inr (out ! j)
             \<longrightarrow> j < i)"
proof -
  have s1: "score_server rnd (n1, fm1) = Inr (n1, Fin 0, Fin 0, Fin 0, PInf)"
    using r deg by (rule score_server_degenerate)
  from nonneg_scores [OF r len rg nonneg nz] obtain w st sp pg where
    b: "1 / 2 ^ 1026 \<le> w"
    and s2: "score_server rnd (n2, fm2) = Inr (n2, Fin w, st, sp, pg)"
    by blast
  have "(0::real) < 1 / 2 ^ 1026" by simp
  with b have w: "0 < w" by linarith
  have order: "j < i"
    if "rank_nodes rnd data = Inr out" "i < length out" "j < length out"
       "score_server rnd (n1, fm1) = Inr (out ! i)" "score_server rnd (n2, fm2) = Inr (out ! j)"
    for data out i j
  proof (rule ccontr)
    assume "\<not> j < i"
    then have "i = j \<or> i < j" by auto
    have "out ! i = (n1, Fin 0, Fin 0, Fin 0, PInf)" using that(4) s1 by simp
    then have wi: "weighted_of (out ! i) = Fin 0" by (simp add: weighted_of_def)
    have "out ! j = (n2, Fin w, st, sp, pg)" using that(5) s2 by simp
    then have wj: "weighted_of (out ! j) = Fin w" by (simp add: weighted_of_def)
    from \<open>i = j \<or> i < j\<close> show False
    proof
      assume "i = j"
      with wi wj w show False by simp
    next
      assume "i < j"
      with rank_nodes_sorted [OF r that(1)] that(3)
      have "py_le (weighted_of (out ! j)) (weighted_of (out ! i))"
        by (simp add: sorted_wrt_iff_nth_less)
      with wi wj w show False by simp
    qed
  qed
  have ex: "\<exists>i j. j < i \<and> i < length out \<and> score_server rnd (n1, fm1) = Inr (out ! i)
                \<and> score_server rnd (n2, fm2) = Inr (out ! j)"
    if "rank_nodes rnd data = Inr out" "(n1, fm1) \<in> set data" "(n2, fm2) \<in> set data"
    for data out
  proof -
    from rank_nodes_member [OF r that(1,2)] obtain i where
      i: "i < length out" "score_server rnd (n1, fm1) = Inr (out ! i)"
      by (auto simp: in_set_conv_nth)
    from rank_nodes_member [OF r that(1,3)] obtain j where
      j: "j < length out" "score_server rnd (n2, fm2) = Inr (out ! j)"
      by (auto simp: in_set_conv_nth)
    from order [OF that(1) i(1) j(1) i(2) j(2)] i j show ?thesis by blast
  qed
  have s2': "\<exists>r w. score_server rnd (n2, fm2) = Inr r \<and> weighted_of r = Fin w \<and> 0 < w"
    using s2 w by (simp add: weighted_of_def)
  from s1 s2' ex order show ?thesis by blast
qed

theorem degenerate_ranked_last_witness:
  "rounding exact_rnd
   \<and> valid_measurements (all_measurements [(''a.csv'', [ErrorMarker, Valid (Fin 5) (Fin 5)])])
       = [(Fin 5, Fin 5)]
   \<and> valid_measurements
       (all_measurements [(''a.csv'', [Valid (Fin 0) (Fin 100), Valid (Fin 0) (Fin 100)])])
       = [(Fin 0, Fin 100), (Fin 0, Fin 100)]
   \<and> exact_rnd (spec_mean [100, 100]) = Fin 100
   \<and> rank_nodes exact_rnd
       [(''C'', [(''a.csv'', [ErrorMarker, Valid (Fin 5) (Fin 5)])]),
        (''B'', [(''a.csv'', [Valid (Fin 0) (Fin 100), Valid (Fin 0) (Fin 100)])])]
       = Inr [(''B'', Fin 1, Fin 1, Fin 100, Fin 0), (''C'', Fin 0, Fin 0, Fin 0, PInf)]
   \<and> score_server exact_rnd (''C'', [(''a.csv'', [ErrorMarker, Valid (Fin 5) (Fin 5)])])
       = Inr (''C'', Fin 0, Fin 0, Fin 0, PInf)"
proof -
  let ?fm1 = "[(''a.csv'', [ErrorMarker, Valid (Fin 5) (Fin 5)])]"
  let ?fm2 = "[(''a.csv'', [Valid (Fin 0) (Fin 100), Valid (Fin 0) (Fin 100)])]"
  have v1: "valid_measurements (all_measurements ?fm1) = [(Fin 5, Fin 5)]"
    by (simp add: all_measurements_def)
  have v2: "valid_measurements (all_measurements ?fm2) = [(Fin 0, Fin 100), (Fin 0, Fin 100)]"
    by (simp add: all_measurements_def)
  have m: "exact_rnd (spec_mean [100, 100]) = Fin 100"
    by (simp add: spec_mean_def exact_rnd_small)
  have h: "length (valid_measurements (all_measurements ?fm1)) < 2"
    "2 \<le> length (valid_measurements (all_measurements ?fm2))"
    "list_all in_range (pings_of (all_measurements ?fm2))"
    "list_all in_range (speeds_of (all_measurements ?fm2))"
    "\<forall>v\<in>set (pings_of (all_measurements ?fm2)). py_le (Fin 0) v"
    "\<forall>v\<in>set (speeds_of (all_measurements ?fm2)). py_le (Fin 0) v"
    "exact_rnd (spec_mean (vals (speeds_of (all_measurements ?fm2)))) \<noteq> Fin 0"
    using m max_float_pos
    by (simp_all add: all_measurements_def pings_of_def speeds_of_def vals_def max_float_def)
  from degenerate_ranked_last [OF rounding_exact_rnd h, of "''C''" "''B''"]
  have s1: "score_server exact_rnd (''C'', ?fm1) = Inr (''C'', Fin 0, Fin 0, Fin 0, PInf)"
    by blast
  have s2: "score_server exact_rnd (''B'', ?fm2) = Inr (''B'', Fin 1, Fin 1, Fin 100, Fin 0)"
    by (rule score_server_const_100)
  have k: "rank_nodes exact_rnd [(''C'', ?fm1), (''B'', ?fm2)]
       = Inr [(''B'', Fin 1, Fin 1, Fin 100, Fin 0), (''C'', Fin 0, Fin 0, Fin 0, PInf)]"
    by (simp add: rank_nodes_def s1 s2 sorted_reverse_def sort_lt_def weighted_of_def)
  from rounding_exact_rnd v1 v2 m k s1 show ?thesis by (intro conjI)
qed

text \<open>
  Claim C10 as stated fails: two samples with the ping \<^verbatim>\<open>inf\<close>, which is not negative, and
  the speed 100 give no weighted score, for the standard deviation of line 45 raises
  \<^verbatim>\<open>AttributeError\<close>.
\<close>

theorem degenerate_ranked_last_counterexample:
  "valid_measurements (all_measurements [(''a.csv'', [Valid PInf (Fin 100), Valid PInf (Fin 100)])])
     = [(PInf, Fin 100), (PInf, Fin 100)]
   \<and> py_le (Fin 0) PInf \<and> py_le (Fin 0) (Fin 100)
   \<and> mean exact_rnd [Fin 100, Fin 100] = Inr (Fin 100)
   \<and> score_server exact_rnd (''B'', [(''a.csv'', [Valid PInf (Fin 100), Valid PInf (Fin 100)])])
       = Inl AttributeError
   \<and> rank_nodes exact_rnd
       [(''C'', [(''a.csv'', [ErrorMarker])]),
        (''B'', [(''a.csv'', [Valid PInf (Fin 100), Valid PInf (Fin 100)])])]
       = Inl AttributeError"
  by (simp add: rank_nodes_def score_server_def all_measurements_def weighted_score_def
      calculate_scores_def pings_of_def ping_stability_def stdev_def mean_def Let_def
      py_min_def py_max_def fsub_def inf_times_def exact_rnd_small)

text \<open>
  Claim C2, amended. For a data row of exactly three fields (\<^verbatim>\<open>float\<close> rejecting the
  explicit-error fields), ingestion appends a valid sample exactly when both the ping and
  the speed field parse as numbers, appends an error marker exactly when neither field
  parses as a number, be it an explicit-error field or any other text, and leaves the
  corpus as it is exactly when one field parses and the other does not.
\<close>

theorem ingest_row_outcome:
  assumes "\<forall>v. explicit_error v \<longrightarrow> flt v = None"
  shows "((\<exists>p s. samples_at (ingest_row flt filename [server_name, ping, speed] data)
                   server_name filename
                 = samples_at data server_name filename @ [Valid p s])
            \<longleftrightarrow> flt ping \<noteq> None \<and> flt speed \<noteq> None)
       \<and> (flt ping \<noteq> None \<and> flt speed \<noteq> None \<longrightarrow>
            samples_at (ingest_row flt filename [server_name, ping, speed] data)
              server_name filename
            = samples_at data server_name filename @ [Valid (the (flt ping)) (the (flt speed))])
       \<and> (samples_at (ingest_row flt filename [server_name, ping, speed] data)
              server_name filename
            = samples_at data server_name filename @ [ErrorMarker]
            \<longleftrightarrow> flt ping = None \<and> flt speed = None)
       \<and> (ingest_row flt filename [server_name, ping, speed] data = data
            \<longleftrightarrow> (flt ping = None) \<noteq> (flt speed = None))
       \<and> (\<forall>s f. (s, f) \<noteq> (server_name, filename) \<longrightarrow>
            samples_at (ingest_row flt filename [server_name, ping, speed] data) s f
            = samples_at data s f)"
proof -
  note pv = parse_value_flt [OF assms]
  consider (both) "flt ping \<noteq> None" "flt speed \<noteq> None"
    | (neither) "flt ping = None" "flt speed = None"
    | (one) "(flt ping = None) \<noteq> (flt speed = None)"
    by (cases "flt ping = None"; cases "flt speed = None") simp_all
  then show ?thesis
  proof cases
    case both
    then have "ingest_row flt filename [server_name, ping, speed] data
        = record_sample server_name filename (Valid (the (flt ping)) (the (flt speed))) data"
      by (simp add: ingest_row_def pv)
    with both show ?thesis
      by (simp add: samples_at_record_sample record_sample_neq)
  next
    case neither
    then have "ingest_row flt filename [server_name, ping, speed] data
        = record_sample server_name filename ErrorMarker data"
      by (simp add: ingest_row_def pv)
    with neither show ?thesis
      by (simp add: samples_at_record_sample record_sample_neq)
  next
    case one
    then have "ingest_row flt filename [server_name, ping, speed] data = data"
      by (auto simp: ingest_row_def pv)
    with one show ?thesis by auto
  qed
qed

theorem ingest_row_outcome_witness:
  "samples_at (ingest_row (float_literal exact_rnd) ''a.csv'' [''A'', ''12.5'', ''80''] [])
       ''A'' ''a.csv''
       = [Valid (Fin (25 / 2)) (Fin 80)]
   \<and> samples_at (ingest_row (float_literal exact_rnd) ''a.csv'' [''A'', ''abc'', ''Error''] [])
       ''A'' ''a.csv''
       = [ErrorMarker]
   \<and> ingest_row (float_literal exact_rnd) ''a.csv'' [''A'', ''12.5'', ''ERROR''] [] = []"
proof -
  have h: "\<forall>v. explicit_error v \<longrightarrow> float_literal exact_rnd v = None"
    using float_literal_error by blast
  have "float_literal rnd ''12.5'' = Some (rnd (25 / 2))" for rnd :: "real \<Rightarrow> pyfloat"
    by code_simp (simp add: of_rat_divide)
  from this [of exact_rnd] have f1: "float_literal exact_rnd ''12.5'' = Some (Fin (25 / 2))"
    by (simp add: exact_rnd_small)
  have "float_literal rnd ''80'' = Some (rnd 80)" for rnd :: "real \<Rightarrow> pyfloat"
    by code_simp simp
  from this [of exact_rnd] have f2: "float_literal exact_rnd ''80'' = Some (Fin 80)"
    by (simp add: exact_rnd_small)
  have f3: "float_literal rnd ''abc'' = None" "float_literal rnd ''Error'' = None"
    "float_literal rnd ''ERROR'' = None" for rnd :: "real \<Rightarrow> pyfloat"
    by code_simp+
  have e: "samples_at [] ''A'' ''a.csv'' = []" by (simp add: samples_at_def)
  note t = ingest_row_outcome [OF h, of "''a.csv''" "''A''" _ _ "[]"]
  from t [of "''12.5''" "''80''"] t [of "''abc''" "''Error''"] t [of "''12.5''" "''ERROR''"]
  show ?thesis by (simp add: f1 f2 f3 e)
qed

text \<open>
  Claim C2 as stated fails: the fields \<^verbatim>\<open>abc\<close> and \<^verbatim>\<open>xyz\<close> are not explicit-error fields,
  and the row is recorded as an error marker.
\<close>

theorem ingest_row_outcome_counterexample:
  "\<not> explicit_error ''abc'' \<and> \<not> explicit_error ''xyz''
   \<and> ingest_row (float_literal exact_rnd) ''a.csv'' [''A'', ''abc'', ''xyz''] []
       = [(''A'', [(''a.csv'', [ErrorMarker])])]"
proof -
  have "\<not> explicit_error ''abc'' \<and> \<not> explicit_error ''xyz''
   \<and> ingest_row (float_literal rnd) ''a.csv'' [''A'', ''abc'', ''xyz''] []
       = [(''A'', [(''a.csv'', [ErrorMarker])])]" for rnd :: "real \<Rightarrow> pyfloat"
    by code_simp
  then show ?thesis .
qed

text \<open>
  Claim C7. A data row of three fields of which exactly one measurement field parses as a
  number leaves the corpus unchanged: the file is read as if the row were not there.
\<close>

theorem one_parseable_field_dropped:
  assumes "\<forall>v. explicit_error v \<longrightarrow> flt v = None"
      and "(flt ping = None) \<noteq> (flt speed = None)"
  shows "ingest_row flt filename [server_name, ping, speed] data = data
       \<and> read_file flt filename (header # before @ [server_name, ping, speed] # after) data
           = read_file flt filename (header # before @ after) data"
proof -
  have "ingest_row flt filename [server_name, ping, speed] data' = data'" for data'
    using assms(2) by (auto simp: ingest_row_def parse_value_flt [OF assms(1)])
  then show ?thesis by (simp add: read_file_def)
qed

theorem one_parseable_field_dropped_witness:
  "(float_literal exact_rnd ''12.5'' = None) \<noteq> (float_literal exact_rnd ''ERROR'' = None)
   \<and> ingest_row (float_literal exact_rnd) ''a.csv'' [''A'', ''12.5'', ''ERROR'']
        [(''A'', [(''a.csv'', [Valid (Fin 1) (Fin 2), ErrorMarker])])]
       = [(''A'', [(''a.csv'', [Valid (Fin 1) (Fin 2), ErrorMarker])])]
   \<and> read_file (float_literal exact_rnd) ''a.csv''
        [[''server'', ''ping'', ''speed''], [''A'', ''12.5'', ''ERROR''], [''A'', ''1'', ''2'']] []
       = read_file (float_literal exact_rnd) ''a.csv''
        [[''server'', ''ping'', ''speed''], [''A'', ''1'', ''2'']] []"
proof -
  have h: "\<forall>v. explicit_error v \<longrightarrow> float_literal exact_rnd v = None"
    using float_literal_error by blast
  have "(float_literal rnd ''12.5'' = None) \<noteq> (float_literal rnd ''ERROR'' = None)"
    for rnd :: "real \<Rightarrow> pyfloat"
    by code_simp
  then have f: "(float_literal exact_rnd ''12.5'' = None)
      \<noteq> (float_literal exact_rnd ''ERROR'' = None)" .
  from one_parseable_field_dropped [OF h f, of "''a.csv''" "''A''" _ _ "[]"] f
  show ?thesis by simp
qed





end
